theory Spec2Isabelle
  imports Main "HOL-Library.Word"
begin

unbundle bit_operations_syntax

section \<open>The record cache of \<open>cached_gbwt.cpp\<close>\<close>

subsection \<open>Values and sentinels\<close>

text \<open>
  \<open>size_type\<close> and \<open>node_type\<close> are the same unsigned 64-bit integer; an
  \<open>edge_type\<close> is a pair (node, offset). Values stored in the slot table and in
  ranges are 64-bit words. Lengths of vectors and positions in them are natural
  numbers: a vector never holds \<open>2^64\<close> elements, so nothing wraps there.
\<close>

type_synonym size_type = "64 word"

type_synonym node_type = "64 word"

type_synonym edge_type = "node_type \<times> size_type"

type_synonym range_type = "size_type \<times> size_type"

text \<open>
  Modelled from the spec: \<open>invalid_node()\<close>, \<open>invalid_offset()\<close> and
  \<open>invalid_edge()\<close> are declared in \<open>gbwt/utils.h\<close>, which is not among the
  sources. The spec calls the pair "a sentinel value meaning empty slot"; \<open>rehash\<close>
  skips a slot whose offset is \<open>>= cacheSize()\<close> and \<open>indexOffset\<close> takes a slot
  whose node is \<open>>= cacheSize()\<close>, so both components are the largest 64-bit value.
\<close>

definition invalid_node :: node_type where
  "invalid_node = - 1"

definition invalid_offset :: size_type where
  "invalid_offset = - 1"

definition invalid_edge :: edge_type where
  "invalid_edge = (invalid_node, invalid_offset)"

text \<open>
  Modelled from the spec: \<open>wang_hash_64\<close> is declared in \<open>gbwt/utils.h\<close> too. The
  spec says only that the base slot is "a fast integer hash of the node masked to
  capacity". Every operation below takes the hash as its parameter \<open>h\<close>, and a
  theorem with a free \<open>h\<close> holds for every hash function. Closed examples need one
  hash: they use Thomas Wang's 64-bit mix, which is the function of this name.
\<close>

definition wang_hash_64 :: "size_type \<Rightarrow> size_type" where
  "wang_hash_64 key0 =
     (let key = NOT key0 + push_bit 21 key0;
          key = key XOR drop_bit 24 key;
          key = (key + push_bit 3 key) + push_bit 8 key;
          key = key XOR drop_bit 14 key;
          key = (key + push_bit 2 key) + push_bit 4 key;
          key = key XOR drop_bit 28 key;
          key = key + push_bit 31 key
      in key)"

subsection \<open>The cache state\<close>

text \<open>
  The two mutable members of \<open>CachedGBWT\<close>: the slot table \<open>cache_index\<close> and the
  record list \<open>cached_records\<close>. The index the cache reads from is immutable; it is
  the parameter \<open>index_record\<close> (\<open>index.record(node)\<close>) of the operations that
  fetch.
\<close>

record 'r CachedGBWT =
  cache_index :: "edge_type list"
  cached_records :: "'r list"

definition cacheSize :: "'r CachedGBWT \<Rightarrow> nat" where
  "cacheSize c = length (cached_records c)"

definition cacheCapacity :: "'r CachedGBWT \<Rightarrow> nat" where
  "cacheCapacity c = length (cache_index c)"

text \<open>
  The constructor. \<open>SINGLE_CAPACITY\<close> and \<open>INITIAL_CAPACITY\<close> are class constants
  of the header and are parameters here.
\<close>

definition new_CachedGBWT :: "nat \<Rightarrow> nat \<Rightarrow> bool \<Rightarrow> 'r CachedGBWT" where
  "new_CachedGBWT SINGLE_CAPACITY INITIAL_CAPACITY single_record =
     \<lparr> cache_index =
         replicate (if single_record then SINGLE_CAPACITY else INITIAL_CAPACITY) invalid_edge,
       cached_records = [] \<rparr>"

definition clearCache :: "'r CachedGBWT \<Rightarrow> 'r CachedGBWT" where
  "clearCache c =
     c\<lparr> cache_index := map (\<lambda>cell. invalid_edge) (cache_index c), cached_records := [] \<rparr>"

subsection \<open>Probing\<close>

text \<open>
  \<open>CannotFindIndexOffset\<close> is the exhausted probe loop of \<open>indexOffset\<close>: the line
  written to \<open>std::cerr\<close> together with the return of \<open>invalid_offset()\<close>.
  \<open>OutOfRange\<close> is a read of \<open>cached_records\<close> past its end.
\<close>

datatype error = CannotFindIndexOffset | OutOfRange

text \<open>The test of line 116: the slot's stored node is compared with the cache size.\<close>

definition slot_free :: "edge_type list \<Rightarrow> nat \<Rightarrow> node_type \<Rightarrow> nat \<Rightarrow> bool" where
  "slot_free tab sz node offset \<longleftrightarrow>
     sz \<le> unat (fst (tab ! offset)) \<or> fst (tab ! offset) = node"

text \<open>The \<open>for\<close> loop of \<open>indexOffset\<close>, from the offset and attempt it has reached.\<close>

function probe :: "edge_type list \<Rightarrow> nat \<Rightarrow> node_type \<Rightarrow> nat \<Rightarrow> nat \<Rightarrow> error + nat" where
  "probe tab sz node offset attempt =
     (if attempt < length tab then
        (if slot_free tab sz node offset then Inr offset
         else probe tab sz node ((offset + attempt + 1) AND (length tab - 1)) (attempt + 1))
      else Inl CannotFindIndexOffset)"
  by pat_completeness auto
termination
  by (relation "measure (\<lambda>(tab, sz, node, offset, attempt). length tab - attempt)") auto
declare probe.simps [simp del]

definition indexOffset :: "(node_type \<Rightarrow> size_type) \<Rightarrow> 'r CachedGBWT \<Rightarrow> node_type \<Rightarrow> error + nat" where
  "indexOffset h c node =
     probe (cache_index c) (cacheSize c) node
       (unat (h node) AND (cacheCapacity c - 1)) 0"

subsection \<open>Rehashing and lookup\<close>

text \<open>
  \<open>rehash_loop\<close> is the \<open>for\<close> loop of \<open>rehash\<close> over the old table; the cache it
  carries already has the new, doubled table. A failed probe would make the source
  write at \<open>invalid_offset()\<close>, outside the table; the model stops with the error.
\<close>

function rehash_loop ::
  "(node_type \<Rightarrow> size_type) \<Rightarrow> edge_type list \<Rightarrow> nat \<Rightarrow> 'r CachedGBWT \<Rightarrow> error + 'r CachedGBWT" where
  "rehash_loop h old_cache_index i c =
     (if i < length old_cache_index then
        (if cacheSize c \<le> unat (snd (old_cache_index ! i)) then
           rehash_loop h old_cache_index (i + 1) c
         else
           (case indexOffset h c (fst (old_cache_index ! i)) of
              Inl e \<Rightarrow> Inl e
            | Inr offset \<Rightarrow>
                rehash_loop h old_cache_index (i + 1)
                  (c\<lparr> cache_index := (cache_index c)[offset := old_cache_index ! i] \<rparr>)))
      else Inr c)"
  by pat_completeness auto
termination
  by (relation "measure (\<lambda>(h, old_cache_index, i, c). length old_cache_index - i)") auto
declare rehash_loop.simps [simp del]

definition rehash :: "(node_type \<Rightarrow> size_type) \<Rightarrow> 'r CachedGBWT \<Rightarrow> error + 'r CachedGBWT" where
  "rehash h c =
     rehash_loop h (cache_index c) 0
       (c\<lparr> cache_index := replicate (2 * cacheCapacity c) invalid_edge \<rparr>)"

text \<open>
  \<open>MAX_LOAD_FACTOR\<close> is the double 0.77 (the spec gives the value). The capacity is
  a power of two, so the product \<open>MAX_LOAD_FACTOR * cacheCapacity()\<close> is exact in a
  double, and for an integer size and a capacity below \<open>2^49\<close> the comparison
  \<open>cacheSize() > MAX_LOAD_FACTOR * cacheCapacity()\<close> is the comparison
  \<open>100 * cacheSize() > 77 * cacheCapacity()\<close> of integers.
\<close>

definition over_load :: "'r CachedGBWT \<Rightarrow> bool" where
  "over_load c \<longleftrightarrow> 77 * cacheCapacity c < 100 * cacheSize c"

text \<open>\<open>findRecord\<close> returns the record-list offset together with the cache it leaves.\<close>

definition findRecord ::
  "(node_type \<Rightarrow> size_type) \<Rightarrow> (node_type \<Rightarrow> 'r) \<Rightarrow> 'r CachedGBWT \<Rightarrow> node_type
     \<Rightarrow> error + (nat \<times> 'r CachedGBWT)" where
  "findRecord h index_record c node =
     (case indexOffset h c node of
        Inl e \<Rightarrow> Inl e
      | Inr index_offset \<Rightarrow>
          if fst (cache_index c ! index_offset) = node
          then Inr (unat (snd (cache_index c ! index_offset)), c)
          else
            (let c1 = c\<lparr> cache_index :=
                          (cache_index c)[index_offset := (node, of_nat (cacheSize c))] \<rparr>;
                 c2 = c1\<lparr> cached_records := cached_records c1 @ [index_record node] \<rparr>
             in if over_load c2
                then (case rehash h c2 of
                        Inl e \<Rightarrow> Inl e
                      | Inr c3 \<Rightarrow> Inr (cacheSize c3 - 1, c3))
                else Inr (cacheSize c2 - 1, c2)))"

text \<open>
  The public operations that change a cache, and a cache driven through a list of
  them. A failed probe ends the run.
\<close>

datatype request = FindRecord node_type | ClearCache

fun run ::
  "(node_type \<Rightarrow> size_type) \<Rightarrow> (node_type \<Rightarrow> 'r) \<Rightarrow> 'r CachedGBWT \<Rightarrow> request list
     \<Rightarrow> error + 'r CachedGBWT" where
  "run h index_record c [] = Inr c"
| "run h index_record c (FindRecord n # rs) =
     (case findRecord h index_record c n of
        Inl e \<Rightarrow> Inl e
      | Inr (r, c') \<Rightarrow> run h index_record c' rs)"
| "run h index_record c (ClearCache # rs) = run h index_record (clearCache c) rs"

text \<open>
  The scenario of two lookups of \<open>a\<close> with a lookup of \<open>b\<close> between them, on a
  new cache, over an index whose record of a node is the node itself, so that
  \<open>cached_records\<close> lists the fetches in order. It holds when the lookups of
  \<open>a\<close> return the offsets 0 and 2 and \<open>a\<close> has been fetched twice.
\<close>

definition refetches ::
  "(node_type \<Rightarrow> size_type) \<Rightarrow> nat \<Rightarrow> nat \<Rightarrow> bool \<Rightarrow> node_type \<Rightarrow> node_type \<Rightarrow> bool" where
  "refetches h SINGLE_CAPACITY INITIAL_CAPACITY single_record a b \<longleftrightarrow>
     (case findRecord h (\<lambda>n. n)
             (new_CachedGBWT SINGLE_CAPACITY INITIAL_CAPACITY single_record) a of
        Inl e \<Rightarrow> False
      | Inr (r1, c1) \<Rightarrow>
          (case findRecord h (\<lambda>n. n) c1 b of
             Inl e \<Rightarrow> False
           | Inr (r2, c2) \<Rightarrow>
               (case findRecord h (\<lambda>n. n) c2 a of
                  Inl e \<Rightarrow> False
                | Inr (r3, c3) \<Rightarrow> r1 = 0 \<and> r3 = 2 \<and> cached_records c3 = [a, b, a])))"

subsection \<open>Search states and extension\<close>

text \<open>
  Modelled from the spec: \<open>SearchState\<close>, \<open>BidirectionalState\<close> and \<open>Range\<close> are
  declared in headers that are not among the sources. The spec gives a state as a node
  and a range that is empty when its lower bound is above its upper bound, gives the
  size of a state as the length of its range, and has \<open>flip\<close> exchange the two
  directions. \<open>cachedExtendForward\<close> sets the upper bound to
  \<open>first + size - 1\<close>, so the range includes both bounds and its length is
  \<open>second + 1 - first\<close>, in 64-bit arithmetic. A default-constructed state is empty.
\<close>

record SearchState =
  node :: node_type
  range' :: range_type

record BidirectionalState =
  forward :: SearchState
  backward :: SearchState

definition Range_length :: "range_type \<Rightarrow> size_type" where
  "Range_length r = snd r + 1 - fst r"

definition Range_empty :: "range_type \<Rightarrow> bool" where
  "Range_empty r \<longleftrightarrow> snd r < fst r"

definition SearchState_size :: "SearchState \<Rightarrow> size_type" where
  "SearchState_size s = Range_length (range' s)"

definition SearchState_empty :: "SearchState \<Rightarrow> bool" where
  "SearchState_empty s \<longleftrightarrow> Range_empty (range' s)"

definition new_SearchState :: SearchState where
  "new_SearchState = \<lparr> node = 0, range' = (1, 0) \<rparr>"

definition BidirectionalState_empty :: "BidirectionalState \<Rightarrow> bool" where
  "BidirectionalState_empty s \<longleftrightarrow> SearchState_empty (forward s)"

definition new_BidirectionalState :: BidirectionalState where
  "new_BidirectionalState = \<lparr> forward = new_SearchState, backward = new_SearchState \<rparr>"

definition flip :: "BidirectionalState \<Rightarrow> BidirectionalState" where
  "flip s = \<lparr> forward = backward s, backward = forward s \<rparr>"

text \<open>
  Modelled from the spec: \<open>DecompressedRecord\<close> is declared in a header that is
  not among the sources. The spec lists the operations of a record that the cache
  consumes: \<open>successor(i)\<close>, the node of the i-th outgoing edge,
  \<open>LF(range, node)\<close>, and \<open>bdLF(range, node)\<close>, which gives the new range and
  the reverse offset; the source passes \<open>reverse_offset\<close> by reference, and the
  model returns the value it is left with.
\<close>

record DecompressedRecord =
  successor :: "size_type \<Rightarrow> node_type"
  LF :: "range_type \<Rightarrow> node_type \<Rightarrow> range_type"
  bdLF :: "range_type \<Rightarrow> node_type \<Rightarrow> range_type \<times> size_type"

definition cachedExtend ::
  "DecompressedRecord CachedGBWT \<Rightarrow> SearchState \<Rightarrow> nat \<Rightarrow> size_type \<Rightarrow> error + SearchState" where
  "cachedExtend c state cache_offset i =
     (if SearchState_empty state then Inr new_SearchState
      else if cacheSize c \<le> cache_offset then Inl OutOfRange
      else
        (let nd = successor (cached_records c ! cache_offset) i
         in Inr (state\<lparr> range' := LF (cached_records c ! cache_offset) (range' state) nd,
                        node := nd \<rparr>)))"

definition cachedExtendForward ::
  "DecompressedRecord CachedGBWT \<Rightarrow> BidirectionalState \<Rightarrow> nat \<Rightarrow> size_type
     \<Rightarrow> error + BidirectionalState" where
  "cachedExtendForward c state cache_offset i =
     (if BidirectionalState_empty state then Inr new_BidirectionalState
      else if cacheSize c \<le> cache_offset then Inl OutOfRange
      else
        (let nd = successor (cached_records c ! cache_offset) i;
             (new_range, reverse_offset) =
               bdLF (cached_records c ! cache_offset) (range' (forward state)) nd;
             fw = (forward state)\<lparr> range' := new_range, node := nd \<rparr>;
             first = fst (range' (backward state)) + reverse_offset;
             bw = (backward state)\<lparr> range' := (first, first + SearchState_size fw - 1) \<rparr>
         in Inr \<lparr> forward = fw, backward = bw \<rparr>))"

definition cachedExtendBackward ::
  "DecompressedRecord CachedGBWT \<Rightarrow> BidirectionalState \<Rightarrow> nat \<Rightarrow> size_type
     \<Rightarrow> error + BidirectionalState" where
  "cachedExtendBackward c state cache_offset i =
     (case cachedExtendForward c (flip state) cache_offset i of
        Inl e \<Rightarrow> Inl e
      | Inr state' \<Rightarrow> Inr (flip state'))"

subsection \<open>Well-formed caches\<close>

text \<open>
  \<open>slots_valid\<close>: every slot is the sentinel or stores an offset into the record
  list. \<open>offsets_distinct\<close>: no two slots store the same offset into the record
  list. \<open>table_ok\<close> adds that the record list is shorter than \<open>2^64\<close>, and
  \<open>cache_inv\<close> that the capacity is a power of two and the load is within
  \<open>MAX_LOAD_FACTOR\<close>. \<open>rehash_pre\<close> is the state in which \<open>findRecord\<close> calls
  \<open>rehash\<close>: the insertion is done and the load may be over the factor.
  \<open>from_prefix old i tab\<close> says that the new table \<open>tab\<close> of a running \<open>rehash\<close>
  holds only sentinels and slots of the old table below \<open>i\<close>.
\<close>

definition is_power_of_two :: "nat \<Rightarrow> bool" where
  "is_power_of_two n \<longleftrightarrow> (\<exists>k. n = 2 ^ k)"

definition slots_valid :: "'r CachedGBWT \<Rightarrow> bool" where
  "slots_valid c \<longleftrightarrow>
     (\<forall>e \<in> set (cache_index c). e = invalid_edge \<or> unat (snd e) < cacheSize c)"

definition offsets_distinct :: "edge_type list \<Rightarrow> nat \<Rightarrow> bool" where
  "offsets_distinct tab sz \<longleftrightarrow>
     (\<forall>i<length tab. \<forall>j<length tab.
        i \<noteq> j \<longrightarrow> unat (snd (tab ! i)) < sz \<longrightarrow> unat (snd (tab ! j)) < sz \<longrightarrow>
        snd (tab ! i) \<noteq> snd (tab ! j))"

definition table_ok :: "'r CachedGBWT \<Rightarrow> bool" where
  "table_ok c \<longleftrightarrow>
     slots_valid c \<and> offsets_distinct (cache_index c) (cacheSize c) \<and> cacheSize c < 2 ^ 64"

definition cache_inv :: "'r CachedGBWT \<Rightarrow> bool" where
  "cache_inv c \<longleftrightarrow> is_power_of_two (cacheCapacity c) \<and> \<not> over_load c \<and> table_ok c"

definition rehash_pre :: "'r CachedGBWT \<Rightarrow> bool" where
  "rehash_pre c \<longleftrightarrow>
     is_power_of_two (cacheCapacity c) \<and> table_ok c \<and> cacheSize c < 2 * cacheCapacity c"

definition occupied_slots :: "'r CachedGBWT \<Rightarrow> nat" where
  "occupied_slots c = length (filter (\<lambda>e. e \<noteq> invalid_edge) (cache_index c))"

definition from_prefix :: "edge_type list \<Rightarrow> nat \<Rightarrow> edge_type list \<Rightarrow> bool" where
  "from_prefix old i tab \<longleftrightarrow>
     (\<forall>p<length tab. tab ! p = invalid_edge \<or> (\<exists>j<i. j < length old \<and> tab ! p = old ! j))"

text \<open>The triangular numbers: attempt \<open>j\<close> probes the slot \<open>base + tri j\<close>.\<close>

fun tri :: "nat \<Rightarrow> nat" where
  "tri 0 = 0"
| "tri (Suc n) = tri n + Suc n"

section \<open>Dictionary\<close>

text \<open>
  Modelled from the spec: the class \<open>Dictionary\<close> of \<open>gbwt/support.h\<close> is not
  among the sources; only its tests are. The spec gives it as an ordered sequence of
  distinct string keys, the offset of a key being its place in the sequence, together
  with a lookup structure from key to offset that every mutation keeps in step with
  the sequence. \<open>find\<close> returns the offset of a key and \<open>size()\<close> for an absent
  one; \<open>remove(offset)\<close> does nothing when \<open>offset >= size()\<close>, and otherwise
  deletes the key at the offset, moves every later key down by one and updates the
  lookup structure.
\<close>

record Dictionary =
  keys :: "string list"
  lookup :: "(string \<times> nat) list"

definition new_Dictionary :: "string list \<Rightarrow> Dictionary" where
  "new_Dictionary ks = \<lparr> keys = ks, lookup = zip ks [0..<length ks] \<rparr>"

definition Dictionary_size :: "Dictionary \<Rightarrow> nat" where
  "Dictionary_size d = length (keys d)"

definition Dictionary_find :: "Dictionary \<Rightarrow> string \<Rightarrow> nat" where
  "Dictionary_find d key = (case map_of (lookup d) key of Some offset \<Rightarrow> offset
                            | None \<Rightarrow> Dictionary_size d)"

definition Dictionary_at :: "Dictionary \<Rightarrow> nat \<Rightarrow> string" where
  "Dictionary_at d offset = keys d ! offset"

definition Dictionary_remove :: "Dictionary \<Rightarrow> nat \<Rightarrow> Dictionary" where
  "Dictionary_remove d offset =
     (if Dictionary_size d \<le> offset then d
      else \<lparr> keys = take offset (keys d) @ drop (Suc offset) (keys d),
             lookup = map (\<lambda>(k, i). (k, if offset < i then i - 1 else i))
                        (filter (\<lambda>(k, i). i \<noteq> offset) (lookup d)) \<rparr>)"

text \<open>The invariant: the keys are distinct and the lookup structure holds their offsets.\<close>

definition Dictionary_ok :: "Dictionary \<Rightarrow> bool" where
  "Dictionary_ok d \<longleftrightarrow>
     distinct (keys d) \<and> set (lookup d) = set (zip (keys d) [0..<length (keys d)])"

section \<open>Iterator over a sparse bit vector\<close>

text \<open>
  Modelled from the spec: \<open>SDIterator\<close> of \<open>gbwt/support.h\<close> and the vector it
  reads are not among the sources; only the tests are. The spec gives the vector as a
  strictly increasing sequence of set-bit positions below a universe size \<open>U\<close>, and
  an iterator as a current position, its 0-based rank and the vector. A predecessor
  query for \<open>x\<close> stands at the largest set bit \<open><= x\<close>, and in the end state when
  there is none; in the end state the position is \<open>U\<close> and the rank is the number
  of set bits. The high/low encoding of the vector is not modelled.
\<close>

record sd_vector =
  ones :: "nat list"
  universe :: nat

definition sd_vector_ok :: "sd_vector \<Rightarrow> bool" where
  "sd_vector_ok v \<longleftrightarrow> sorted_wrt (<) (ones v) \<and> (\<forall>p \<in> set (ones v). p < universe v)"

record SDIterator =
  vector :: sd_vector
  pos :: nat
  rank :: nat

definition SDIterator_end_state :: "sd_vector \<Rightarrow> SDIterator" where
  "SDIterator_end_state v = \<lparr> vector = v, pos = universe v, rank = length (ones v) \<rparr>"

definition SDIterator_predecessor :: "sd_vector \<Rightarrow> nat \<Rightarrow> SDIterator" where
  "SDIterator_predecessor v x =
     (let below = filter (\<lambda>p. p \<le> x) (ones v)
      in if below = [] then SDIterator_end_state v
         else \<lparr> vector = v, pos = Max (set below),
                rank = length (filter (\<lambda>q. q < Max (set below)) (ones v)) \<rparr>)"

definition SDIterator_deref :: "SDIterator \<Rightarrow> nat" where
  "SDIterator_deref it = pos it"

definition SDIterator_size :: "SDIterator \<Rightarrow> nat" where
  "SDIterator_size it = length (ones (vector it))"

definition SDIterator_end :: "SDIterator \<Rightarrow> bool" where
  "SDIterator_end it \<longleftrightarrow> universe (vector it) \<le> pos it"

section \<open>Probing with triangular numbers\<close>

text \<open>
  On a table of \<open>2^k\<close> slots the probe sequence \<open>base + tri j\<close>, \<open>j < 2^k\<close>,
  visits every slot once.
\<close>

lemma tri_double: "2 * tri n = n * (n + 1)"
  by (induction n) auto

lemma and_pow2_minus1: "(x::nat) AND (2 ^ k - 1) = x mod 2 ^ k"
  by (metis mask_eq_exp_minus_1 take_bit_eq_mask take_bit_eq_mod)

lemma and_le_right: "(x::nat) AND m \<le> m"
proof -
  have "int x AND int m \<le> int m" by (rule AND_upper2) simp
  then have "int (x AND m) \<le> int m" by (simp add: of_nat_and_eq)
  then show ?thesis by simp
qed

lemma base_lt: "0 < cap \<Longrightarrow> (x::nat) AND (cap - 1) < cap"
  using and_le_right[of x "cap - 1"] by linarith

lemma tri_mono: "i \<le> j \<Longrightarrow> tri i \<le> tri j"
  by (induction j) (auto simp: le_Suc_eq)

lemma tri_diff: "i \<le> j \<Longrightarrow> 2 * (tri j - tri i) = (j - i) * (j + i + 1)"
proof -
  assume le: "i \<le> j"
  have "2 * (tri j - tri i) = 2 * tri j - 2 * tri i" by simp
  also have "\<dots> = j * (j + 1) - i * (i + 1)" by (simp only: tri_double)
  also have "\<dots> = (j - i) * (j + i + 1)"
  proof -
    obtain d where "j = i + d" using le by (auto simp: le_iff_add)
    then show ?thesis by (simp add: algebra_simps)
  qed
  finally show ?thesis .
qed

lemma tri_inj_aux:
  assumes "i < j" "j < 2 ^ k" "(b + tri i) mod 2 ^ k = (b + tri j) mod 2 ^ k"
  shows False
proof -
  have le: "b + tri i \<le> b + tri j" using assms(1) by (simp add: tri_mono)
  have "(2::nat) ^ k dvd (b + tri j) - (b + tri i)"
    using assms(3) le by (metis mod_eq_dvd_iff_nat)
  then have "(2::nat) ^ k dvd tri j - tri i" by simp
  then have "2 * 2 ^ k dvd 2 * (tri j - tri i)" by simp
  then have d: "(2::nat) ^ Suc k dvd (j - i) * (j + i + 1)"
    using assms(1) by (simp add: tri_diff)
  have pos1: "0 < j - i" and lt1: "j - i < 2 ^ Suc k" using assms by auto
  have pos2: "0 < j + i + 1" and lt2: "j + i + 1 < 2 ^ Suc k" using assms by auto
  show False
  proof (cases "odd (j - i)")
    case True
    then have "coprime ((2::nat) ^ Suc k) (j - i)" by simp
    then have "(2::nat) ^ Suc k dvd j + i + 1"
      using d coprime_dvd_mult_right_iff[of "2 ^ Suc k" "j - i" "j + i + 1"] by blast
    then show False using pos2 lt2 by (auto dest: dvd_imp_le)
  next
    case False
    then have "odd (j + i + 1)" using assms(1) by auto
    then have "coprime ((2::nat) ^ Suc k) (j + i + 1)" by simp
    then have "(2::nat) ^ Suc k dvd j - i"
      using d coprime_dvd_mult_left_iff[of "2 ^ Suc k" "j + i + 1" "j - i"] by blast
    then show False using pos1 lt1 by (auto dest: dvd_imp_le)
  qed
qed

lemma tri_probe_inj: "inj_on (\<lambda>j. (b + tri j) mod 2 ^ k) {..<2 ^ k}"
proof (rule inj_onI)
  fix x y :: nat assume x: "x \<in> {..<2 ^ k}" and y: "y \<in> {..<2 ^ k}"
    and eq: "(b + tri x) mod 2 ^ k = (b + tri y) mod 2 ^ k"
  note e = eq
  show "x = y"
  proof (rule ccontr)
    assume "x \<noteq> y"
    then consider "x < y" | "y < x" by linarith
    then show False
    proof cases
      case 1 then show False using tri_inj_aux[of x y k b] y e by simp
    next
      case 2 then show False using tri_inj_aux[of y x k b] x e by simp
    qed
  qed
qed

lemma tri_probe_surj:
  assumes "t < 2 ^ k"
  shows "\<exists>j<2 ^ k. (b + tri j) mod 2 ^ k = t"
proof -
  let ?f = "\<lambda>j. (b + tri j) mod 2 ^ k"
  have "?f ` {..<2 ^ k} \<subseteq> {..<2 ^ k}" by auto
  then have "?f ` {..<2 ^ k} = {..<2 ^ k}"
    using tri_probe_inj[of b k] by (simp add: endo_inj_surj)
  then have "t \<in> ?f ` {..<2 ^ k}" using assms by simp
  then show ?thesis by auto
qed

lemma probe_Inr:
  "probe tab sz n off a = Inr slot \<Longrightarrow> off < length tab \<Longrightarrow>
     slot < length tab \<and> slot_free tab sz n slot"
proof (induction tab sz n off a rule: probe.induct)
  case (1 tab sz node offset attempt)
  show ?case
  proof (cases "attempt < length tab \<and> \<not> slot_free tab sz node offset")
    case True
    have lt: "(offset + attempt + 1) AND (length tab - 1) < length tab"
      using and_le_right[of "offset + attempt + 1" "length tab - 1"] "1.prems"(2) by linarith
    have "probe tab sz node ((offset + attempt + 1) AND (length tab - 1)) (attempt + 1) = Inr slot"
      using "1.prems"(1) True by (subst (asm) probe.simps) simp
    then show ?thesis using "1.IH" True lt by blast
  next
    case False
    then show ?thesis using "1.prems" by (subst (asm) probe.simps) (auto split: if_splits)
  qed
qed

lemma probe_finds:
  assumes len: "length tab = 2 ^ k"
  shows "off = (b + tri a) mod 2 ^ k \<Longrightarrow> a \<le> j \<Longrightarrow> j < 2 ^ k \<Longrightarrow>
         slot_free tab sz n ((b + tri j) mod 2 ^ k) \<Longrightarrow>
         \<exists>slot. probe tab sz n off a = Inr slot"
proof (induction "j - a" arbitrary: a off)
  case 0
  then have "a = j" by simp
  then show ?case using 0 len by (subst probe.simps) simp
next
  case (Suc d)
  show ?case
  proof (cases "slot_free tab sz n off")
    case True
    then show ?thesis using Suc.prems len by (subst probe.simps) simp
  next
    case False
    have next_off: "(off + a + 1) AND (length tab - 1) = (b + tri (Suc a)) mod 2 ^ k"
    proof -
      have "(off + a + 1) AND (length tab - 1) = (off + a + 1) mod 2 ^ k"
        unfolding len by (rule and_pow2_minus1)
      also have "\<dots> = ((b + tri a) mod 2 ^ k + (a + 1)) mod 2 ^ k"
        using Suc.prems(1) by (simp only: add.assoc)
      also have "\<dots> = (b + tri a + (a + 1)) mod 2 ^ k"
        by (rule mod_add_left_eq)
      finally show ?thesis by (simp add: add.assoc)
    qed
    have "\<exists>slot. probe tab sz n ((b + tri (Suc a)) mod 2 ^ k) (Suc a) = Inr slot"
      using Suc.hyps Suc.prems by (intro Suc.hyps(1)) auto
    then show ?thesis using False Suc.hyps(2) Suc.prems len next_off
      by (subst probe.simps) simp
  qed
qed

lemma probe_total:
  assumes len: "length tab = 2 ^ k" and t: "t < length tab" and free: "slot_free tab sz n t"
    and b: "b < length tab"
  shows "\<exists>slot<length tab. probe tab sz n b 0 = Inr slot \<and> slot_free tab sz n slot"
proof -
  obtain j where j: "j < 2 ^ k" "(b + tri j) mod 2 ^ k = t"
    using tri_probe_surj[of t k b] t len by auto
  have "\<exists>slot. probe tab sz n b 0 = Inr slot"
    using probe_finds[OF len, of b b 0 j sz n] j free b len by simp
  then show ?thesis using probe_Inr b by blast
qed

section \<open>The slot table stays well formed\<close>

lemma unat_invalid [simp]:
  "unat invalid_node = 2 ^ 64 - 1" "unat invalid_offset = 2 ^ 64 - 1"
  "fst invalid_edge = invalid_node" "snd invalid_edge = invalid_offset"
  by (simp_all add: invalid_node_def invalid_offset_def invalid_edge_def
      unsigned_minus_1_eq_mask mask_eq_exp_minus_1)

lemma pow2_2: "is_power_of_two 2"
  unfolding is_power_of_two_def by (rule exI[of _ 1]) simp

lemma pow2_256: "is_power_of_two 256"
  unfolding is_power_of_two_def by (rule exI[of _ 8]) simp

lemma valid_count:
  assumes "offsets_distinct tab sz"
  shows "card {i. i < length tab \<and> unat (snd (tab ! i)) < sz} \<le> sz"
proof -
  let ?A = "{i. i < length tab \<and> unat (snd (tab ! i)) < sz}"
  have "inj_on (\<lambda>i. unat (snd (tab ! i))) ?A"
  proof (rule inj_onI)
    fix x y assume x: "x \<in> ?A" and y: "y \<in> ?A"
      and eq: "unat (snd (tab ! x)) = unat (snd (tab ! y))"
    from eq have "snd (tab ! x) = snd (tab ! y)" by (simp add: word_unat_eq_iff)
    then show "x = y" using assms x y unfolding offsets_distinct_def by blast
  qed
  moreover have "(\<lambda>i. unat (snd (tab ! i))) ` ?A \<subseteq> {..<sz}" by auto
  ultimately have "card ?A \<le> card {..<sz}" by (rule card_inj_on_le) simp
  then show ?thesis by simp
qed

lemma free_slot_exists:
  assumes ok: "table_ok c" and lt: "cacheSize c < cacheCapacity c"
  shows "\<exists>t<cacheCapacity c. cacheSize c \<le> unat (fst (cache_index c ! t))"
proof (rule ccontr)
  assume "\<not> ?thesis"
  then have all: "\<forall>t<cacheCapacity c. unat (fst (cache_index c ! t)) < cacheSize c" by auto
  have sz: "cacheSize c < 2 ^ 64" using ok by (simp add: table_ok_def)
  have "\<forall>t<cacheCapacity c. unat (snd (cache_index c ! t)) < cacheSize c"
  proof (intro allI impI)
    fix t assume t: "t < cacheCapacity c"
    then have "unat (fst (cache_index c ! t)) < cacheSize c" using all by simp
    then have "cache_index c ! t \<noteq> invalid_edge" using sz by auto
    moreover have "cache_index c ! t \<in> set (cache_index c)"
      using t by (simp add: cacheCapacity_def)
    ultimately show "unat (snd (cache_index c ! t)) < cacheSize c"
      using ok by (auto simp: table_ok_def slots_valid_def)
  qed
  then have "{i. i < length (cache_index c) \<and> unat (snd (cache_index c ! i)) < cacheSize c}
      = {..<cacheCapacity c}"
    by (auto simp: cacheCapacity_def)
  then have "cacheCapacity c \<le> cacheSize c"
    using valid_count[of "cache_index c" "cacheSize c"] ok by (simp add: table_ok_def)
  then show False using lt by simp
qed

lemma occupied_le_size:
  assumes ok: "table_ok c"
  shows "occupied_slots c \<le> cacheSize c"
proof -
  let ?A = "{i. i < length (cache_index c) \<and> unat (snd (cache_index c ! i)) < cacheSize c}"
  have "{i. i < length (cache_index c) \<and> cache_index c ! i \<noteq> invalid_edge} \<subseteq> ?A"
    using ok by (auto simp: table_ok_def slots_valid_def)
  then have "card {i. i < length (cache_index c) \<and> cache_index c ! i \<noteq> invalid_edge} \<le> card ?A"
    by (intro card_mono) auto
  then show ?thesis
    using valid_count[of "cache_index c" "cacheSize c"] ok
    by (simp add: occupied_slots_def length_filter_conv_card table_ok_def)
qed

lemma indexOffset_Inr:
  assumes "indexOffset h c n = Inr slot"
  shows "slot < cacheCapacity c \<and> slot_free (cache_index c) (cacheSize c) n slot"
proof -
  have pos: "0 < cacheCapacity c"
    using assms unfolding indexOffset_def cacheCapacity_def
    by (subst (asm) probe.simps) (auto split: if_splits)
  have "unat (h n) AND (cacheCapacity c - 1) < cacheCapacity c"
    using and_le_right[of "unat (h n)" "cacheCapacity c - 1"] pos by linarith
  then show ?thesis
    using assms probe_Inr unfolding indexOffset_def cacheCapacity_def by blast
qed

lemma indexOffset_total:
  assumes ok: "table_ok c" and lt: "cacheSize c < cacheCapacity c"
    and p2: "is_power_of_two (cacheCapacity c)"
  shows "\<exists>slot. indexOffset h c n = Inr slot"
proof -
  obtain k where k: "length (cache_index c) = 2 ^ k"
    using p2 by (auto simp: is_power_of_two_def cacheCapacity_def)
  obtain t where t: "t < length (cache_index c)" "cacheSize c \<le> unat (fst (cache_index c ! t))"
    using free_slot_exists[OF ok lt] by (auto simp: cacheCapacity_def)
  have free: "slot_free (cache_index c) (cacheSize c) n t" using t by (simp add: slot_free_def)
  have "unat (h n) AND (cacheCapacity c - 1) < length (cache_index c)"
    using and_le_right[of "unat (h n)" "cacheCapacity c - 1"] t(1)
    by (simp add: cacheCapacity_def)
  then show ?thesis
    using probe_total[OF k t(1) free] unfolding indexOffset_def by blast
qed

lemma indexOffset_first_free:
  assumes "0 < cacheCapacity c"
    and "base = unat (h n) AND (cacheCapacity c - 1)"
    and "slot_free (cache_index c) (cacheSize c) n base"
  shows "indexOffset h c n = Inr base"
  using assms unfolding indexOffset_def cacheCapacity_def by (subst probe.simps) simp

subsection \<open>Rehashing\<close>

lemma from_prefix_mono: "from_prefix old i tab \<Longrightarrow> i \<le> i' \<Longrightarrow> from_prefix old i' tab"
  unfolding from_prefix_def by (meson less_le_trans)

lemma from_prefix_set:
  assumes "from_prefix old i tab"
  shows "set tab \<subseteq> insert invalid_edge (set old)"
proof
  fix e assume "e \<in> set tab"
  then obtain p where "p < length tab" "tab ! p = e" by (auto simp: in_set_conv_nth)
  then show "e \<in> insert invalid_edge (set old)"
    using assms unfolding from_prefix_def by (metis insert_iff nth_mem)
qed

lemma reinsert_step:
  assumes ok: "table_ok c"
    and prov: "from_prefix old i (cache_index c)"
    and old: "offsets_distinct old (cacheSize c)"
    and i: "i < length old"
    and v: "unat (snd (old ! i)) < cacheSize c"
    and off: "off < cacheCapacity c"
  shows "table_ok (c\<lparr> cache_index := (cache_index c)[off := old ! i] \<rparr>) \<and>
         from_prefix old (Suc i) ((cache_index c)[off := old ! i])"
proof -
  let ?tab = "cache_index c" and ?sz = "cacheSize c"
  let ?tab' = "?tab[off := old ! i]"
  have sz: "?sz < 2 ^ 64" using ok by (simp add: table_ok_def)
  have len: "off < length ?tab" using off by (simp add: cacheCapacity_def)
  have valid: "slots_valid (c\<lparr> cache_index := ?tab' \<rparr>)"
  proof -
    have "set ?tab' \<subseteq> insert (old ! i) (set ?tab)" by (rule set_update_subset_insert)
    then show ?thesis
      using ok v by (auto simp: slots_valid_def table_ok_def cacheSize_def)
  qed
  have other: "snd (?tab ! q) \<noteq> snd (old ! i)"
    if q: "q < length ?tab" and qv: "unat (snd (?tab ! q)) < ?sz" for q
  proof -
    have "?tab ! q \<noteq> invalid_edge" using qv sz by auto
    then obtain j where j: "j < i" "j < length old" "?tab ! q = old ! j"
      using prov q unfolding from_prefix_def by blast
    then show ?thesis
      using old i v qv unfolding offsets_distinct_def by (metis less_irrefl)
  qed
  have dist: "offsets_distinct ?tab' ?sz"
    unfolding offsets_distinct_def
  proof (intro allI impI)
    fix p q assume p: "p < length ?tab'" and q: "q < length ?tab'" and ne: "p \<noteq> q"
      and pv: "unat (snd (?tab' ! p)) < ?sz" and qv: "unat (snd (?tab' ! q)) < ?sz"
    consider "p = off" | "q = off" | "p \<noteq> off" "q \<noteq> off" by blast
    then show "snd (?tab' ! p) \<noteq> snd (?tab' ! q)"
    proof cases
      case 1
      then show ?thesis using other[of q] q qv ne len by simp
    next
      case 2
      then show ?thesis using other[of p] p pv ne len by simp
    next
      case 3
      then show ?thesis
        using ok p q ne pv qv by (simp add: table_ok_def offsets_distinct_def)
    qed
  qed
  have prov': "from_prefix old (Suc i) ?tab'"
    unfolding from_prefix_def
  proof (intro allI impI)
    fix p assume p: "p < length ?tab'"
    show "?tab' ! p = invalid_edge \<or> (\<exists>j<Suc i. j < length old \<and> ?tab' ! p = old ! j)"
    proof (cases "p = off")
      case True
      then show ?thesis using i len by auto
    next
      case False
      then show ?thesis
        using prov p unfolding from_prefix_def by (auto intro: less_SucI)
    qed
  qed
  show ?thesis
    using valid dist sz prov' by (simp add: table_ok_def cacheSize_def)
qed

lemma rehash_loop_ok:
  "is_power_of_two (cacheCapacity c) \<Longrightarrow> table_ok c \<Longrightarrow> cacheSize c < cacheCapacity c \<Longrightarrow>
   from_prefix old i (cache_index c) \<Longrightarrow> offsets_distinct old (cacheSize c) \<Longrightarrow>
   \<exists>c'. rehash_loop h old i c = Inr c' \<and> cached_records c' = cached_records c \<and>
        cacheCapacity c' = cacheCapacity c \<and> table_ok c' \<and>
        set (cache_index c') \<subseteq> insert invalid_edge (set old)"
proof (induction "length old - i" arbitrary: i c)
  case 0
  then have "rehash_loop h old i c = Inr c" by (subst rehash_loop.simps) simp
  then show ?case using 0 from_prefix_set by blast
next
  case (Suc d)
  then have i: "i < length old" and d: "d = length old - (i + 1)" by auto
  show ?case
  proof (cases "cacheSize c \<le> unat (snd (old ! i))")
    case True
    have "from_prefix old (i + 1) (cache_index c)"
      using Suc.prems(4) by (rule from_prefix_mono) simp
    then have "\<exists>c'. rehash_loop h old (i + 1) c = Inr c' \<and> cached_records c' = cached_records c \<and>
        cacheCapacity c' = cacheCapacity c \<and> table_ok c' \<and>
        set (cache_index c') \<subseteq> insert invalid_edge (set old)"
      using Suc.prems d by (intro Suc.hyps(1)) auto
    then show ?thesis using True i by (subst rehash_loop.simps) simp
  next
    case False
    obtain off where off: "indexOffset h c (fst (old ! i)) = Inr off"
      using indexOffset_total[OF Suc.prems(2) Suc.prems(3) Suc.prems(1)] by blast
    then have lt: "off < cacheCapacity c" using indexOffset_Inr by blast
    let ?c1 = "c\<lparr> cache_index := (cache_index c)[off := old ! i] \<rparr>"
    have step: "table_ok ?c1 \<and> from_prefix old (Suc i) ((cache_index c)[off := old ! i])"
      using reinsert_step[OF Suc.prems(2) Suc.prems(4) Suc.prems(5) i _ lt] False by simp
    have same: "cacheCapacity ?c1 = cacheCapacity c" "cacheSize ?c1 = cacheSize c"
      "cached_records ?c1 = cached_records c"
      by (simp_all add: cacheCapacity_def cacheSize_def)
    have "\<exists>c'. rehash_loop h old (i + 1) ?c1 = Inr c' \<and> cached_records c' = cached_records ?c1 \<and>
        cacheCapacity c' = cacheCapacity ?c1 \<and> table_ok c' \<and>
        set (cache_index c') \<subseteq> insert invalid_edge (set old)"
      using Suc.prems d step same by (intro Suc.hyps(1)) auto
    then show ?thesis using False i off same by (subst rehash_loop.simps) simp
  qed
qed

lemma rehash_ok:
  assumes "rehash_pre c"
  shows "\<exists>c'. rehash h c = Inr c' \<and> cached_records c' = cached_records c \<and>
        cacheCapacity c' = 2 * cacheCapacity c \<and> table_ok c' \<and>
        set (cache_index c') \<subseteq> insert invalid_edge (set (cache_index c))"
proof -
  let ?c0 = "c\<lparr> cache_index := replicate (2 * cacheCapacity c) invalid_edge \<rparr>"
  have p2: "is_power_of_two (cacheCapacity ?c0)"
  proof -
    obtain k where "cacheCapacity c = 2 ^ k"
      using assms by (auto simp: rehash_pre_def is_power_of_two_def)
    then have "cacheCapacity ?c0 = 2 ^ Suc k" by (simp add: cacheCapacity_def)
    then show ?thesis unfolding is_power_of_two_def by blast
  qed
  have sz: "cacheSize ?c0 = cacheSize c" by (simp add: cacheSize_def)
  have ok: "table_ok ?c0"
    using assms by (simp add: rehash_pre_def table_ok_def slots_valid_def offsets_distinct_def
        cacheSize_def)
  have lt: "cacheSize ?c0 < cacheCapacity ?c0"
    using assms by (simp add: rehash_pre_def cacheSize_def cacheCapacity_def)
  have prov: "from_prefix (cache_index c) 0 (cache_index ?c0)"
    by (simp add: from_prefix_def)
  have old: "offsets_distinct (cache_index c) (cacheSize ?c0)"
    using assms by (simp add: rehash_pre_def table_ok_def sz)
  obtain c' where c': "rehash_loop h (cache_index c) 0 ?c0 = Inr c'"
    "cached_records c' = cached_records ?c0" "cacheCapacity c' = cacheCapacity ?c0"
    "table_ok c'" "set (cache_index c') \<subseteq> insert invalid_edge (set (cache_index c))"
    using rehash_loop_ok[OF p2 ok lt prov old, of h] by blast
  then show ?thesis by (simp add: rehash_def cacheCapacity_def)
qed

lemma rehash_Inr:
  "rehash_loop h old i c = Inr c' \<Longrightarrow>
     cached_records c' = cached_records c \<and> cacheCapacity c' = cacheCapacity c \<and>
     (set (cache_index c) \<subseteq> insert invalid_edge (set old) \<longrightarrow>
        set (cache_index c') \<subseteq> insert invalid_edge (set old))"
proof (induction h old i c rule: rehash_loop.induct)
  case (1 h old i c)
  show ?case
  proof (cases "i < length old")
    case False
    then show ?thesis using "1.prems" by (subst (asm) rehash_loop.simps) simp
  next
    case True
    note i = this
    show ?thesis
    proof (cases "cacheSize c \<le> unat (snd (old ! i))")
      case True
      then have "rehash_loop h old (i + 1) c = Inr c'"
        using "1.prems" i by (subst (asm) rehash_loop.simps) simp
      then show ?thesis using "1.IH"(1)[OF i True] by simp
    next
      case False
      then obtain off where off: "indexOffset h c (fst (old ! i)) = Inr off"
        and rec: "rehash_loop h old (i + 1)
                    (c\<lparr> cache_index := (cache_index c)[off := old ! i] \<rparr>) = Inr c'"
        using "1.prems" i
        by (subst (asm) rehash_loop.simps) (auto split: sum.splits)
      have "set ((cache_index c)[off := old ! i]) \<subseteq> insert (old ! i) (set (cache_index c))"
        by (rule set_update_subset_insert)
      moreover have "old ! i \<in> set old" using i by simp
      ultimately have sub: "set (cache_index c) \<subseteq> insert invalid_edge (set old) \<Longrightarrow>
          set ((cache_index c)[off := old ! i]) \<subseteq> insert invalid_edge (set old)"
        by blast
      show ?thesis
        using "1.IH"(2)[OF i False off rec] sub
        by (simp add: cacheCapacity_def)
    qed
  qed
qed

subsection \<open>Lookup and runs\<close>

lemma insert_table_ok:
  assumes ok: "table_ok c" and io: "io < cacheCapacity c" and bound: "cacheSize c + 1 < 2 ^ 64"
  shows "table_ok (c\<lparr> cache_index := (cache_index c)[io := (n, of_nat (cacheSize c))],
                     cached_records := cached_records c @ [x] \<rparr>)"
proof -
  let ?tab = "cache_index c" and ?sz = "cacheSize c"
  let ?tab' = "?tab[io := (n, of_nat ?sz)]"
  have new: "unat (of_nat ?sz :: 64 word) = ?sz"
    using bound by (simp add: unat_of_nat)
  have len: "io < length ?tab" using io by (simp add: cacheCapacity_def)
  have old: "unat (snd e) < ?sz" if "e \<in> set ?tab" "unat (snd e) < ?sz + 1" for e
  proof -
    have "e \<noteq> invalid_edge" using that(2) bound by auto
    then show ?thesis using ok that(1) by (auto simp: table_ok_def slots_valid_def)
  qed
  have valid: "\<forall>e \<in> set ?tab'. e = invalid_edge \<or> unat (snd e) < ?sz + 1"
  proof
    fix e assume "e \<in> set ?tab'"
    then have "e = (n, of_nat ?sz) \<or> e \<in> set ?tab"
      using set_update_subset_insert[of ?tab io "(n, of_nat ?sz)"] by auto
    then show "e = invalid_edge \<or> unat (snd e) < ?sz + 1"
      using ok new by (auto simp: table_ok_def slots_valid_def)
  qed
  have dist: "offsets_distinct ?tab' (?sz + 1)"
    unfolding offsets_distinct_def
  proof (intro allI impI)
    fix p q assume p: "p < length ?tab'" and q: "q < length ?tab'" and ne: "p \<noteq> q"
      and pv: "unat (snd (?tab' ! p)) < ?sz + 1" and qv: "unat (snd (?tab' ! q)) < ?sz + 1"
    consider "p = io" | "q = io" | "p \<noteq> io" "q \<noteq> io" by blast
    then show "snd (?tab' ! p) \<noteq> snd (?tab' ! q)"
    proof cases
      case 1
      then have "unat (snd (?tab ! q)) < ?sz" using old[of "?tab ! q"] q qv ne by simp
      then show ?thesis using 1 ne len new by auto
    next
      case 2
      then have "unat (snd (?tab ! p)) < ?sz" using old[of "?tab ! p"] p pv ne by simp
      then show ?thesis using 2 ne len new by auto
    next
      case 3
      then have "unat (snd (?tab ! p)) < ?sz" "unat (snd (?tab ! q)) < ?sz"
        using old[of "?tab ! p"] old[of "?tab ! q"] p q pv qv by simp_all
      then show ?thesis
        using ok p q ne 3 by (simp add: table_ok_def offsets_distinct_def)
    qed
  qed
  show ?thesis
    using valid dist bound by (simp add: table_ok_def slots_valid_def cacheSize_def)
qed

lemma findRecord_ok:
  assumes inv: "cache_inv c" and bound: "cacheSize c + 1 < 2 ^ 64"
  shows "\<exists>r c'. findRecord h index_record c n = Inr (r, c') \<and> cache_inv c' \<and>
           cacheSize c' \<le> cacheSize c + 1 \<and> (n \<noteq> invalid_node \<longrightarrow> r < cacheSize c')"
proof -
  have p2: "is_power_of_two (cacheCapacity c)" and load: "100 * cacheSize c \<le> 77 * cacheCapacity c"
    and ok: "table_ok c"
    using inv by (simp_all add: cache_inv_def over_load_def)
  have pos: "0 < cacheCapacity c" using p2 by (auto simp: is_power_of_two_def)
  have lt: "cacheSize c < cacheCapacity c" using load pos by linarith
  obtain io where io: "indexOffset h c n = Inr io"
    using indexOffset_total[OF ok lt p2] by blast
  then have io_lt: "io < cacheCapacity c" using indexOffset_Inr by blast
  show ?thesis
  proof (cases "fst (cache_index c ! io) = n")
    case True
    have "n \<noteq> invalid_node \<Longrightarrow> unat (snd (cache_index c ! io)) < cacheSize c"
    proof -
      assume "n \<noteq> invalid_node"
      then have "cache_index c ! io \<noteq> invalid_edge" using True by auto
      moreover have "cache_index c ! io \<in> set (cache_index c)"
        using io_lt by (simp add: cacheCapacity_def)
      ultimately show ?thesis using ok by (auto simp: table_ok_def slots_valid_def)
    qed
    then show ?thesis using True io inv by (simp add: findRecord_def)
  next
    case False
    let ?c2 = "c\<lparr> cache_index := (cache_index c)[io := (n, of_nat (cacheSize c))],
                   cached_records := cached_records c @ [index_record n] \<rparr>"
    have ok2: "table_ok ?c2" using insert_table_ok[OF ok io_lt bound] .
    have sz2: "cacheSize ?c2 = cacheSize c + 1" and cap2: "cacheCapacity ?c2 = cacheCapacity c"
      by (simp_all add: cacheSize_def cacheCapacity_def)
    show ?thesis
    proof (cases "over_load ?c2")
      case True
      have "rehash_pre ?c2" using p2 ok2 lt by (simp add: rehash_pre_def sz2 cap2)
      then obtain c3 where c3: "rehash h ?c2 = Inr c3" "cached_records c3 = cached_records ?c2"
        "cacheCapacity c3 = 2 * cacheCapacity ?c2" "table_ok c3"
        using rehash_ok by blast
      have sz3: "cacheSize c3 = cacheSize c + 1" using c3(2) by (simp add: cacheSize_def)
      have p3: "is_power_of_two (cacheCapacity c3)"
      proof -
        obtain k where "cacheCapacity c = 2 ^ k" using p2 by (auto simp: is_power_of_two_def)
        then have "cacheCapacity c3 = 2 ^ Suc k" using c3(3) cap2 by simp
        then show ?thesis unfolding is_power_of_two_def by blast
      qed
      have "100 * cacheSize c3 \<le> 77 * cacheCapacity c3"
      proof (cases "cacheCapacity c = 1")
        case True
        then have "cacheSize c = 0" using load by simp
        then show ?thesis using True c3(3) cap2 sz3 by simp
      next
        case False
        then have "2 \<le> cacheCapacity c" using pos by simp
        then show ?thesis using load c3(3) cap2 sz3 by simp
      qed
      then have "cache_inv c3" using p3 c3(4) by (simp add: cache_inv_def over_load_def)
      moreover have "findRecord h index_record c n = Inr (cacheSize c3 - 1, c3)"
        using io False True c3(1) by (simp add: findRecord_def Let_def)
      ultimately show ?thesis using sz3 by simp
    next
      case False
      note nl = this
      have "cache_inv ?c2" using p2 ok2 nl cap2 by (simp add: cache_inv_def)
      moreover have "findRecord h index_record c n = Inr (cacheSize ?c2 - 1, ?c2)"
        using io \<open>fst (cache_index c ! io) \<noteq> n\<close> nl by (simp add: findRecord_def Let_def)
      ultimately show ?thesis using sz2 by (metis diff_add_inverse2 le_refl less_add_one)
    qed
  qed
qed

lemma findRecord_miss:
  assumes pos: "0 < cacheCapacity c"
    and base: "base = unat (h n) AND (cacheCapacity c - 1)"
    and free: "\<forall>e \<in> set (cache_index c). cacheSize c \<le> unat (fst e) \<and> fst e \<noteq> n"
    and load: "\<not> 77 * cacheCapacity c < 100 * (cacheSize c + 1)"
  shows "findRecord h index_record c n =
     Inr (cacheSize c,
          c\<lparr> cache_index := (cache_index c)[base := (n, of_nat (cacheSize c))],
              cached_records := cached_records c @ [index_record n] \<rparr>)"
proof -
  have "base < cacheCapacity c" unfolding base using pos by (rule base_lt)
  then have e: "cache_index c ! base \<in> set (cache_index c)" by (simp add: cacheCapacity_def)
  then have "slot_free (cache_index c) (cacheSize c) n base" using free by (simp add: slot_free_def)
  then have "indexOffset h c n = Inr base" using pos base by (intro indexOffset_first_free)
  then show ?thesis
    using e free load
    by (simp add: findRecord_def Let_def over_load_def cacheSize_def cacheCapacity_def)
qed

lemma clearCache_inv: "cache_inv c \<Longrightarrow> cache_inv (clearCache c)"
  by (simp add: cache_inv_def clearCache_def cacheCapacity_def over_load_def cacheSize_def
      table_ok_def slots_valid_def offsets_distinct_def)

lemma new_CachedGBWT_inv:
  "is_power_of_two SINGLE_CAPACITY \<Longrightarrow> is_power_of_two INITIAL_CAPACITY \<Longrightarrow>
   cache_inv (new_CachedGBWT SINGLE_CAPACITY INITIAL_CAPACITY single_record)"
  by (simp add: cache_inv_def new_CachedGBWT_def cacheCapacity_def over_load_def cacheSize_def
      table_ok_def slots_valid_def offsets_distinct_def)

lemma run_ok:
  "cache_inv c \<Longrightarrow> cacheSize c + length rs < 2 ^ 64 \<Longrightarrow>
   \<exists>c'. run h index_record c rs = Inr c' \<and> cache_inv c' \<and>
        cacheSize c' \<le> cacheSize c + length rs"
proof (induction rs arbitrary: c)
  case Nil
  then show ?case by simp
next
  case (Cons x rs)
  show ?case
  proof (cases x)
    case (FindRecord n)
    obtain r c1 where c1: "findRecord h index_record c n = Inr (r, c1)" "cache_inv c1"
      "cacheSize c1 \<le> cacheSize c + 1"
      using findRecord_ok[OF Cons.prems(1), of h index_record n] Cons.prems(2) by auto
    then have "cacheSize c1 + length rs < 2 ^ 64" using Cons.prems(2) by simp
    then show ?thesis using Cons.IH[OF c1(2)] c1(1) c1(3) FindRecord by fastforce
  next
    case ClearCache
    have "cacheSize (clearCache c) + length rs < 2 ^ 64"
      using Cons.prems(2) by (simp add: clearCache_def cacheSize_def)
    moreover have "cacheSize (clearCache c) = 0" by (simp add: clearCache_def cacheSize_def)
    ultimately show ?thesis
      using Cons.IH[OF clearCache_inv[OF Cons.prems(1)]] ClearCache by fastforce
  qed
qed

lemma run_reaches_inv:
  assumes "is_power_of_two SINGLE_CAPACITY" "is_power_of_two INITIAL_CAPACITY"
    and "length rs < 2 ^ 64"
  shows "\<exists>c. run h index_record (new_CachedGBWT SINGLE_CAPACITY INITIAL_CAPACITY single_record) rs
              = Inr c \<and> cache_inv c \<and> cacheSize c \<le> length rs"
proof -
  let ?c0 = "new_CachedGBWT SINGLE_CAPACITY INITIAL_CAPACITY single_record :: 'a CachedGBWT"
  have "cache_inv ?c0" using assms(1,2) by (rule new_CachedGBWT_inv)
  moreover have "cacheSize ?c0 = 0" by (simp add: new_CachedGBWT_def cacheSize_def)
  ultimately show ?thesis using run_ok[of ?c0 rs h index_record] assms(3) by simp
qed

lemma cache_inv_lt: "cache_inv c \<Longrightarrow> cacheSize c < cacheCapacity c"
proof -
  assume inv: "cache_inv c"
  then have "0 < cacheCapacity c" by (auto simp: cache_inv_def is_power_of_two_def)
  then show ?thesis using inv by (simp add: cache_inv_def over_load_def)
qed

section \<open>The cache: lookups\<close>

subsection \<open>A second lookup can miss\<close>

text \<open>
  \<open>indexOffset\<close> takes a slot as vacant when the node stored in it is at least
  \<open>cacheSize()\<close>. A slot that holds such a node is therefore overwritten by the
  next node that probes it, and the node it held is fetched again at its next lookup.
\<close>

lemma collision_refetches:
  assumes coll: "unat (h a) AND 1 = unat (h b) AND 1"
    and ne: "a \<noteq> b" and a: "3 \<le> unat a" "a \<noteq> invalid_node"
    and b: "3 \<le> unat b" "b \<noteq> invalid_node"
  shows "refetches h 2 INITIAL_CAPACITY True a b"
proof -
  define p where "p = unat (h a) AND 1"
  define q where "q = unat (h b) AND 3"
  define q' where "q' = unat (h a) AND 3"
  define s where "s = invalid_edge"
  define t2 where "t2 = replicate 2 s"
  define t4 where "t4 = replicate 4 s"
  let ?id = "\<lambda>n::node_type. n"
  let ?c0 = "\<lparr> cache_index = t2, cached_records = [] :: node_type list \<rparr>"
  let ?c1 = "\<lparr> cache_index = t2[p := (a, 0)], cached_records = [a] \<rparr>"
  let ?c2' = "\<lparr> cache_index = t2[p := (b, 1)], cached_records = [a, b] \<rparr>"
  let ?c4 = "\<lparr> cache_index = t4, cached_records = [a, b] \<rparr>"
  let ?c2 = "\<lparr> cache_index = t4[q := (b, 1)], cached_records = [a, b] \<rparr>"
  let ?c3 = "\<lparr> cache_index = t4[q := (b, 1), q' := (a, 2)], cached_records = [a, b, a] \<rparr>"
  have len: "length t2 = 2" "length t4 = 4" by (simp_all add: t2_def t4_def)
  have sets: "set t2 = {s}" "set t4 = {s}" by (simp_all add: t2_def t4_def)
  have s: "fst s = invalid_node" "unat (fst s) = 2 ^ 64 - 1" "unat (snd s) = 2 ^ 64 - 1"
    by (simp_all add: s_def)
  have p: "p < 2" unfolding p_def using base_lt[of 2 "unat (h a)"] by simp
  have pa: "p = unat (h a) AND (cacheCapacity ?c0 - 1)"
    by (simp add: p_def cacheCapacity_def len)
  have pb: "p = unat (h b) AND (cacheCapacity ?c1 - 1)"
    using coll by (simp add: p_def cacheCapacity_def len)
  have q: "q < 4" unfolding q_def using base_lt[of 4 "unat (h b)"] by simp
  have qb: "q = unat (h b) AND (cacheCapacity ?c4 - 1)"
    by (simp add: q_def cacheCapacity_def len)
  have qa: "q' = unat (h a) AND (cacheCapacity ?c2 - 1)"
    by (simp add: q'_def cacheCapacity_def len)
  have c0: "new_CachedGBWT 2 INITIAL_CAPACITY True = ?c0"
    by (simp add: new_CachedGBWT_def t2_def s_def)
  have s1: "findRecord h ?id ?c0 a = Inr (0, ?c1)"
    using findRecord_miss[of ?c0 p h a ?id] pa a(2) s
    by (simp add: cacheCapacity_def cacheSize_def len sets)
  have io2: "indexOffset h ?c1 b = Inr p"
    using indexOffset_first_free[of ?c1 p h b] pb p a(1)
    by (simp add: cacheCapacity_def cacheSize_def slot_free_def len)
  have io4: "indexOffset h ?c4 b = Inr q"
    using indexOffset_first_free[of ?c4 q h b] qb q s
    by (simp add: cacheCapacity_def cacheSize_def slot_free_def len t4_def)
  have old: "length (t2[p := (b, 1)]) = 2"
    "p = 0 \<Longrightarrow> t2[p := (b, 1)] ! 0 = (b, 1) \<and> t2[p := (b, 1)] ! 1 = s"
    "p = 1 \<Longrightarrow> t2[p := (b, 1)] ! 0 = s \<and> t2[p := (b, 1)] ! 1 = (b, 1)"
    by (simp_all add: t2_def)
  have c4: "?c2'\<lparr> cache_index := replicate (2 * cacheCapacity ?c2') invalid_edge \<rparr> = ?c4"
    by (simp add: cacheCapacity_def len t4_def s_def)
  have l2: "2 \<le> i \<Longrightarrow> rehash_loop h (t2[p := (b, 1)]) i c = Inr c"
    for c :: "node_type CachedGBWT" and i
    by (subst rehash_loop.simps) (simp add: len)
  have rh: "rehash h ?c2' = Inr ?c2"
  proof (cases "p = 0")
    case True
    have "rehash_loop h (t2[p := (b, 1)]) (Suc 0) ?c2 = Inr ?c2"
      using old(2)[OF True] l2[of "Suc (Suc 0)" ?c2] s
      by (subst rehash_loop.simps) (simp add: len cacheSize_def)
    then have "rehash_loop h (t2[p := (b, 1)]) 0 ?c4 = Inr ?c2"
      using old(2)[OF True] io4
      by (subst rehash_loop.simps) (simp add: len cacheSize_def)
    then show ?thesis unfolding rehash_def c4 by simp
  next
    case False
    then have p1: "p = 1" using p by simp
    have "rehash_loop h (t2[p := (b, 1)]) (Suc 0) ?c4 = Inr ?c2"
      using old(3)[OF p1] l2[of "Suc (Suc 0)" ?c2] io4
      by (subst rehash_loop.simps) (simp add: len cacheSize_def)
    then have "rehash_loop h (t2[p := (b, 1)]) 0 ?c4 = Inr ?c2"
      using old(3)[OF p1] s
      by (subst rehash_loop.simps) (simp add: len cacheSize_def)
    then show ?thesis unfolding rehash_def c4 by simp
  qed
  have s2: "findRecord h ?id ?c1 b = Inr (1, ?c2)"
  proof -
    have "fst (t2[p := (a, 0)] ! p) \<noteq> b" using p ne by (simp add: len)
    then show ?thesis
      using io2 rh
      by (simp add: findRecord_def Let_def over_load_def cacheSize_def cacheCapacity_def len)
  qed
  have "\<forall>e \<in> set (cache_index ?c2). cacheSize ?c2 \<le> unat (fst e) \<and> fst e \<noteq> a"
  proof
    fix e assume "e \<in> set (cache_index ?c2)"
    then have "e = (b, 1) \<or> e = s"
      using set_update_subset_insert[of t4 q "(b, 1)"] sets by auto
    then show "cacheSize ?c2 \<le> unat (fst e) \<and> fst e \<noteq> a"
      using a b ne s by (auto simp: cacheSize_def)
  qed
  then have s3: "findRecord h ?id ?c2 a = Inr (2, ?c3)"
    using findRecord_miss[of ?c2 q' h a ?id] qa
    by (simp add: cacheCapacity_def cacheSize_def len)
  show ?thesis
    unfolding refetches_def c0 by (simp add: s1 s2 s3)
qed

lemma collision_refetches_large:
  assumes cap: "4 \<le> cap"
    and coll: "unat (h a) AND (cap - 1) = unat (h b) AND (cap - 1)"
    and ne: "a \<noteq> b" and a: "3 \<le> unat a" "a \<noteq> invalid_node"
    and b: "3 \<le> unat b" "b \<noteq> invalid_node"
  shows "refetches h SINGLE_CAPACITY cap False a b"
proof -
  define p where "p = unat (h a) AND (cap - 1)"
  define s where "s = invalid_edge"
  define t where "t = replicate cap s"
  let ?id = "\<lambda>n::node_type. n"
  let ?c0 = "\<lparr> cache_index = t, cached_records = [] :: node_type list \<rparr>"
  let ?c1 = "\<lparr> cache_index = t[p := (a, 0)], cached_records = [a] \<rparr>"
  let ?c2 = "\<lparr> cache_index = t[p := (b, 1)], cached_records = [a, b] \<rparr>"
  let ?c3 = "\<lparr> cache_index = t[p := (a, 2)], cached_records = [a, b, a] \<rparr>"
  have len: "length t = cap" by (simp add: t_def)
  have sets: "set t = {s}" using cap by (auto simp: t_def)
  have s: "fst s = invalid_node" "unat (fst s) = 2 ^ 64 - 1" by (simp_all add: s_def)
  have p: "p < cap" unfolding p_def using base_lt[of cap "unat (h a)"] cap by simp
  have c0: "new_CachedGBWT SINGLE_CAPACITY cap False = ?c0"
    by (simp add: new_CachedGBWT_def t_def s_def)
  have free0: "\<forall>e \<in> set (cache_index ?c0). cacheSize ?c0 \<le> unat (fst e) \<and> fst e \<noteq> a"
    using a(2) s by (simp add: sets cacheSize_def)
  have s1: "findRecord h ?id ?c0 a = Inr (0, ?c1)"
    using findRecord_miss[of ?c0 p h a ?id, OF _ _ free0] cap
    by (simp add: cacheCapacity_def cacheSize_def len p_def)
  have free1: "\<forall>e \<in> set (cache_index ?c1). cacheSize ?c1 \<le> unat (fst e) \<and> fst e \<noteq> b"
  proof
    fix e assume "e \<in> set (cache_index ?c1)"
    then have "e = (a, 0) \<or> e = s" using set_update_subset_insert[of t p "(a, 0)"] sets by auto
    then show "cacheSize ?c1 \<le> unat (fst e) \<and> fst e \<noteq> b"
      using a b ne s by (auto simp: cacheSize_def)
  qed
  have s2: "findRecord h ?id ?c1 b = Inr (1, ?c2)"
    using findRecord_miss[of ?c1 p h b ?id, OF _ _ free1] cap coll
    by (simp add: cacheCapacity_def cacheSize_def len p_def)
  have free2: "\<forall>e \<in> set (cache_index ?c2). cacheSize ?c2 \<le> unat (fst e) \<and> fst e \<noteq> a"
  proof
    fix e assume "e \<in> set (cache_index ?c2)"
    then have "e = (b, 1) \<or> e = s" using set_update_subset_insert[of t p "(b, 1)"] sets by auto
    then show "cacheSize ?c2 \<le> unat (fst e) \<and> fst e \<noteq> a"
      using a b ne s by (auto simp: cacheSize_def)
  qed
  have s3: "findRecord h ?id ?c2 a = Inr (2, ?c3)"
    using findRecord_miss[of ?c2 p h a ?id, OF _ _ free2] cap
    by (simp add: cacheCapacity_def cacheSize_def len p_def)
  show ?thesis
    unfolding refetches_def c0 by (simp add: s1 s2 s3)
qed

lemma low_bit_collision:
  fixes x y z :: nat
  shows "x AND 1 = y AND 1 \<or> x AND 1 = z AND 1 \<or> y AND 1 = z AND 1"
proof -
  have "x AND 1 \<le> 1" "y AND 1 \<le> 1" "z AND 1 \<le> 1" by (rule and_le_right)+
  then show ?thesis by linarith
qed

lemma wang_hash_64_low_bit:
  "unat (wang_hash_64 1000) AND 1 = unat (wang_hash_64 1001) AND 1"
  by (simp add: wang_hash_64_def Let_def)

lemma wang_hash_64_low_byte:
  "unat (wang_hash_64 4) AND (256 - 1) = unat (wang_hash_64 13) AND (256 - 1)"
  by (simp add: wang_hash_64_def Let_def)

text \<open>
  C1: the claim is that two calls of \<open>findRecord(n)\<close> with no \<open>clearCache\<close>
  between them return the same record-list offset and that \<open>record(n)\<close> is fetched
  once. The code does otherwise. With Thomas Wang's hash, on a cache of capacity 2 the
  calls \<open>findRecord(1000)\<close>, \<open>findRecord(1001)\<close>, \<open>findRecord(1000)\<close> return 0, 1
  and 2 and fetch the record of node 1000 twice, and on a cache of capacity 256 the
  calls \<open>findRecord(4)\<close>, \<open>findRecord(13)\<close>, \<open>findRecord(4)\<close> do the same for node
  4. For every hash function two of the nodes 1000, 1001 and 1002 share the lowest bit
  of their hash, and on a cache of capacity 2 those two do the same.
\<close>

theorem findRecord_fetches_again:
  "refetches wang_hash_64 2 256 True 1000 1001 \<and>
   refetches wang_hash_64 2 256 False 4 13 \<and>
   (refetches h 2 256 True 1000 1001 \<or> refetches h 2 256 True 1000 1002 \<or>
    refetches h 2 256 True 1001 1002)"
proof -
  have ne: "(1000::node_type) \<noteq> 1001" "(1000::node_type) \<noteq> 1002" "(1001::node_type) \<noteq> 1002"
    by simp_all
  have big: "3 \<le> unat (1000::node_type)" "3 \<le> unat (1001::node_type)" "3 \<le> unat (1002::node_type)"
    by simp_all
  have ni: "(1000::node_type) \<noteq> invalid_node" "(1001::node_type) \<noteq> invalid_node"
    "(1002::node_type) \<noteq> invalid_node"
    by (simp_all add: invalid_node_def)
  have small: "(4::node_type) \<noteq> 13" "3 \<le> unat (4::node_type)" "(4::node_type) \<noteq> invalid_node"
    "3 \<le> unat (13::node_type)" "(13::node_type) \<noteq> invalid_node"
    by (simp_all add: invalid_node_def)
  have "refetches wang_hash_64 2 256 True 1000 1001"
    using wang_hash_64_low_bit ne(1) big(1) ni(1) big(2) ni(2) by (rule collision_refetches)
  moreover have "refetches wang_hash_64 2 256 False 4 13"
    using _ wang_hash_64_low_byte small by (rule collision_refetches_large) simp
  moreover have "refetches h 2 256 True 1000 1001 \<or> refetches h 2 256 True 1000 1002 \<or>
      refetches h 2 256 True 1001 1002"
    using low_bit_collision[of "unat (h 1000)" "unat (h 1001)" "unat (h 1002)"]
      collision_refetches[of h 1000 1001 256] collision_refetches[of h 1000 1002 256]
      collision_refetches[of h 1001 1002 256] ne big ni
    by blast
  ultimately show ?thesis by simp
qed

subsection \<open>Probing finds a slot\<close>

text \<open>
  C2: \<open>indexOffset\<close> either returns a slot of the table that passes its test, or
  reports the exhausted probe (the diagnostic line and \<open>invalid_offset()\<close>); it
  never returns another slot. It reports exhaustion only for a cache that is not well
  formed: when the capacity is a power of two, the number of cached records is below
  it and the slot table is well formed, it returns a slot within \<open>capacity\<close>
  attempts. Every cache reached from the constructor by \<open>findRecord\<close> and
  \<open>clearCache\<close> is such a cache, and no call in such a run exhausts its probe.
\<close>

theorem probe_never_exhausted:
  "(case indexOffset h c n of
      Inr slot \<Rightarrow> slot < cacheCapacity c \<and> slot_free (cache_index c) (cacheSize c) n slot
    | Inl e \<Rightarrow> e = CannotFindIndexOffset \<and>
        \<not> (is_power_of_two (cacheCapacity c) \<and> cacheSize c < cacheCapacity c \<and> table_ok c)) \<and>
   (is_power_of_two SINGLE_CAPACITY \<and> is_power_of_two INITIAL_CAPACITY \<and> length rs < 2 ^ 64 \<longrightarrow>
      (\<exists>c'. run h index_record (new_CachedGBWT SINGLE_CAPACITY INITIAL_CAPACITY single_record) rs
               = Inr c' \<and>
            is_power_of_two (cacheCapacity c') \<and> cacheSize c' < cacheCapacity c' \<and> table_ok c'))"
proof (intro conjI impI)
  show "case indexOffset h c n of
      Inr slot \<Rightarrow> slot < cacheCapacity c \<and> slot_free (cache_index c) (cacheSize c) n slot
    | Inl e \<Rightarrow> e = CannotFindIndexOffset \<and>
        \<not> (is_power_of_two (cacheCapacity c) \<and> cacheSize c < cacheCapacity c \<and> table_ok c)"
  proof (cases "indexOffset h c n")
    case (Inl e)
    have "e = CannotFindIndexOffset"
    proof -
      have "probe tab sz nd off a \<noteq> Inl OutOfRange" for tab sz nd off a
        by (induction tab sz nd off a rule: probe.induct) (subst probe.simps, simp)
      then show ?thesis using Inl unfolding indexOffset_def by (cases e) auto
    qed
    then show ?thesis using Inl indexOffset_total[of c h n] by auto
  next
    case (Inr slot)
    then show ?thesis using indexOffset_Inr by force
  qed
next
  assume "is_power_of_two SINGLE_CAPACITY \<and> is_power_of_two INITIAL_CAPACITY \<and> length rs < 2 ^ 64"
  then obtain c' where
    "run h index_record (new_CachedGBWT SINGLE_CAPACITY INITIAL_CAPACITY single_record) rs = Inr c'"
    "cache_inv c'"
    using run_reaches_inv by blast
  then show "\<exists>c'. run h index_record (new_CachedGBWT SINGLE_CAPACITY INITIAL_CAPACITY single_record) rs
               = Inr c' \<and>
            is_power_of_two (cacheCapacity c') \<and> cacheSize c' < cacheCapacity c' \<and> table_ok c'"
    using cache_inv_lt by (auto simp: cache_inv_def)
qed

theorem probe_never_exhausted_witness:
  "is_power_of_two (cacheCapacity \<lparr> cache_index = [(0, 0), invalid_edge], cached_records = [0::node_type] \<rparr>) \<and>
   cacheSize \<lparr> cache_index = [(0, 0), invalid_edge], cached_records = [0::node_type] \<rparr>
     < cacheCapacity \<lparr> cache_index = [(0, 0), invalid_edge], cached_records = [0::node_type] \<rparr> \<and>
   table_ok \<lparr> cache_index = [(0, 0), invalid_edge], cached_records = [0::node_type] \<rparr> \<and>
   indexOffset wang_hash_64
     \<lparr> cache_index = [(0, 0), invalid_edge], cached_records = [0::node_type] \<rparr> 2 = Inr 1 \<and>
   is_power_of_two 2 \<and> is_power_of_two 256 \<and>
   length [FindRecord 1000, FindRecord 1001, ClearCache] < (2::nat) ^ 64 \<and>
   (\<exists>c'. run wang_hash_64 (\<lambda>n. n) (new_CachedGBWT 2 256 True)
            [FindRecord 1000, FindRecord 1001, ClearCache] = Inr c' \<and>
         is_power_of_two (cacheCapacity c') \<and> cacheSize c' < cacheCapacity c' \<and> table_ok c')"
proof -
  let ?c = "\<lparr> cache_index = [(0, 0), invalid_edge], cached_records = [0::node_type] \<rparr>"
  have cap: "cacheCapacity ?c = 2" and sz: "cacheSize ?c = 1"
    by (simp_all add: cacheCapacity_def cacheSize_def)
  have "offsets_distinct (cache_index ?c) (cacheSize ?c)"
    by (auto simp: offsets_distinct_def less_Suc_eq sz)
  then have ok: "table_ok ?c"
    by (simp add: table_ok_def slots_valid_def sz)
  have base: "unat (wang_hash_64 2) AND (cacheCapacity ?c - 1) = 0"
    by (simp add: cap wang_hash_64_def Let_def)
  have io: "indexOffset wang_hash_64 ?c 2 = Inr 1"
    unfolding indexOffset_def base by (simp add: probe.simps slot_free_def sz)
  have len: "length [FindRecord 1000, FindRecord 1001, ClearCache] < (2::nat) ^ 64" by simp
  show ?thesis
    using probe_never_exhausted
      [where h = wang_hash_64 and c = ?c and n = 2 and SINGLE_CAPACITY = 2
         and INITIAL_CAPACITY = 256 and rs = "[FindRecord 1000, FindRecord 1001, ClearCache]"
         and index_record = "\<lambda>n. n" and single_record = True]
      pow2_2 pow2_256 ok io len
    by (simp add: cap sz)
qed

subsection \<open>Load factor\<close>

text \<open>
  C3: after construction and any sequence of \<open>findRecord\<close> and \<open>clearCache\<close>
  calls, the number of cached records is at most \<open>MAX_LOAD_FACTOR\<close> times the
  capacity, the number of occupied slots is at most the number of cached records and
  so within the same bound, and the capacity is a power of two. The initial capacities
  are powers of two, and the run is shorter than \<open>2^64\<close> calls.
\<close>

theorem load_factor_invariant:
  assumes "is_power_of_two SINGLE_CAPACITY" "is_power_of_two INITIAL_CAPACITY"
    and "length rs < 2 ^ 64"
  shows "\<exists>c. run h index_record (new_CachedGBWT SINGLE_CAPACITY INITIAL_CAPACITY single_record) rs
              = Inr c \<and>
           100 * cacheSize c \<le> 77 * cacheCapacity c \<and>
           occupied_slots c \<le> cacheSize c \<and>
           100 * occupied_slots c \<le> 77 * cacheCapacity c \<and>
           is_power_of_two (cacheCapacity c)"
proof -
  obtain c where c:
    "run h index_record (new_CachedGBWT SINGLE_CAPACITY INITIAL_CAPACITY single_record) rs = Inr c"
    "cache_inv c"
    using run_reaches_inv[OF assms] by blast
  have load: "100 * cacheSize c \<le> 77 * cacheCapacity c"
    using c(2) by (simp add: cache_inv_def over_load_def)
  have occ: "occupied_slots c \<le> cacheSize c"
    using c(2) by (simp add: cache_inv_def occupied_le_size)
  have "100 * occupied_slots c \<le> 77 * cacheCapacity c" using load occ by linarith
  then show ?thesis using c load occ by (auto simp: cache_inv_def)
qed

theorem load_factor_invariant_witness:
  "is_power_of_two 2 \<and> is_power_of_two 256 \<and>
   length [FindRecord 1000, FindRecord 1001, ClearCache, FindRecord 5] < (2::nat) ^ 64 \<and>
   (\<exists>c. run wang_hash_64 (\<lambda>n. n) (new_CachedGBWT 2 256 False)
           [FindRecord 1000, FindRecord 1001, ClearCache, FindRecord 5] = Inr c \<and>
        100 * cacheSize c \<le> 77 * cacheCapacity c \<and>
        occupied_slots c \<le> cacheSize c \<and>
        100 * occupied_slots c \<le> 77 * cacheCapacity c \<and>
        is_power_of_two (cacheCapacity c))"
proof -
  have len: "length [FindRecord 1000, FindRecord 1001, ClearCache, FindRecord 5] < (2::nat) ^ 64"
    by simp
  show ?thesis
    using load_factor_invariant[OF pow2_2 pow2_256 len,
        where h = wang_hash_64 and index_record = "\<lambda>n. n" and single_record = False]
      pow2_2 pow2_256 len
    by blast
qed

section \<open>Extension of search states\<close>

text \<open>
  C4: if the forward and backward sizes of a \<open>BidirectionalState\<close> are equal, they
  are equal after \<open>cachedExtendForward\<close> and after \<open>cachedExtendBackward\<close>, for
  every cache offset and successor index. The call returns a state unless the state is
  not empty and the cache offset is past the end of the record list, which the source
  does not check.
\<close>

theorem extension_keeps_sizes_equal:
  assumes "SearchState_size (forward state) = SearchState_size (backward state)"
  shows
    "(case cachedExtendForward c state cache_offset i of
        Inr state' \<Rightarrow> SearchState_size (forward state') = SearchState_size (backward state')
      | Inl e \<Rightarrow> cacheSize c \<le> cache_offset \<and> \<not> BidirectionalState_empty state) \<and>
     (case cachedExtendBackward c state cache_offset i of
        Inr state' \<Rightarrow> SearchState_size (forward state') = SearchState_size (backward state')
      | Inl e \<Rightarrow> cacheSize c \<le> cache_offset \<and> \<not> BidirectionalState_empty (flip state))"
proof -
  have fw: "case cachedExtendForward c s cache_offset i of
        Inr state' \<Rightarrow> SearchState_size (forward state') = SearchState_size (backward state')
      | Inl e \<Rightarrow> cacheSize c \<le> cache_offset \<and> \<not> BidirectionalState_empty s" for s
    by (simp add: cachedExtendForward_def Let_def SearchState_size_def Range_length_def
        new_BidirectionalState_def split: prod.split)
  have "case cachedExtendBackward c state cache_offset i of
        Inr state' \<Rightarrow> SearchState_size (forward state') = SearchState_size (backward state')
      | Inl e \<Rightarrow> cacheSize c \<le> cache_offset \<and> \<not> BidirectionalState_empty (flip state)"
    using fw[of "flip state"]
    by (auto simp: cachedExtendBackward_def flip_def split: sum.splits)
  then show ?thesis using fw[of state] by simp
qed

theorem extension_keeps_sizes_equal_witness:
  "SearchState_size (forward \<lparr> forward = \<lparr> node = 2, range' = (3, 6) \<rparr>,
                               backward = \<lparr> node = 3, range' = (10, 13) \<rparr> \<rparr>)
     = SearchState_size (backward \<lparr> forward = \<lparr> node = 2, range' = (3, 6) \<rparr>,
                                    backward = \<lparr> node = 3, range' = (10, 13) \<rparr> \<rparr>) \<and>
   cachedExtendForward
     \<lparr> cache_index = [(2, 0), invalid_edge],
       cached_records = [\<lparr> successor = (\<lambda>i. 4), LF = (\<lambda>r n. r), bdLF = (\<lambda>r n. ((7, 8), 1)) \<rparr>] \<rparr>
     \<lparr> forward = \<lparr> node = 2, range' = (3, 6) \<rparr>, backward = \<lparr> node = 3, range' = (10, 13) \<rparr> \<rparr> 0 0
     = Inr \<lparr> forward = \<lparr> node = 4, range' = (7, 8) \<rparr>, backward = \<lparr> node = 3, range' = (11, 12) \<rparr> \<rparr> \<and>
   SearchState_size \<lparr> node = 4, range' = (7, 8) \<rparr> = 2 \<and>
   SearchState_size \<lparr> node = 3, range' = (11, 12) \<rparr> = 2 \<and>
   cachedExtendBackward
     \<lparr> cache_index = [(2, 0), invalid_edge],
       cached_records = [\<lparr> successor = (\<lambda>i. 4), LF = (\<lambda>r n. r), bdLF = (\<lambda>r n. ((7, 8), 1)) \<rparr>] \<rparr>
     \<lparr> forward = \<lparr> node = 2, range' = (3, 6) \<rparr>, backward = \<lparr> node = 3, range' = (10, 13) \<rparr> \<rparr> 0 0
     = Inr \<lparr> forward = \<lparr> node = 2, range' = (4, 5) \<rparr>, backward = \<lparr> node = 4, range' = (7, 8) \<rparr> \<rparr>"
  using extension_keeps_sizes_equal
    [where state = "\<lparr> forward = \<lparr> node = 2, range' = (3, 6) \<rparr>, backward = \<lparr> node = 3, range' = (10, 13) \<rparr> \<rparr>"
        and c = "\<lparr> cache_index = [(2, 0), invalid_edge],
           cached_records = [\<lparr> successor = (\<lambda>i. 4), LF = (\<lambda>r n. r), bdLF = (\<lambda>r n. ((7, 8), 1)) \<rparr>] \<rparr>"
        and cache_offset = 0 and i = 0]
  by (simp add: cachedExtendForward_def cachedExtendBackward_def flip_def Let_def
      SearchState_size_def Range_length_def BidirectionalState_empty_def SearchState_empty_def
      Range_empty_def cacheSize_def)

text \<open>
  C5: extending an empty \<open>SearchState\<close> with \<open>cachedExtend\<close>, or a
  \<open>BidirectionalState\<close> whose forward range is empty with \<open>cachedExtendForward\<close>,
  returns the default-constructed state, which is empty, whatever the cache holds and
  whatever the cache offset and the successor index are: the record list is not read
  (an offset past its end is no error) and the result is the same for every cache.
\<close>

theorem empty_state_absorbing:
  "(SearchState_empty state \<longrightarrow>
      cachedExtend c state cache_offset i = Inr new_SearchState) \<and>
   (BidirectionalState_empty bstate \<longrightarrow>
      cachedExtendForward c bstate cache_offset i = Inr new_BidirectionalState) \<and>
   SearchState_empty new_SearchState \<and>
   BidirectionalState_empty new_BidirectionalState"
  by (simp add: cachedExtend_def cachedExtendForward_def SearchState_empty_def
      BidirectionalState_empty_def Range_empty_def new_SearchState_def
      new_BidirectionalState_def)

theorem empty_state_absorbing_witness:
  "SearchState_empty \<lparr> node = 7, range' = (5, 2) \<rparr> \<and>
   cachedExtend \<lparr> cache_index = [], cached_records = [] \<rparr>
     \<lparr> node = 7, range' = (5, 2) \<rparr> 3 4 = Inr new_SearchState \<and>
   BidirectionalState_empty
     \<lparr> forward = \<lparr> node = 7, range' = (5, 2) \<rparr>, backward = \<lparr> node = 8, range' = (0, 9) \<rparr> \<rparr> \<and>
   cachedExtendForward \<lparr> cache_index = [], cached_records = [] \<rparr>
     \<lparr> forward = \<lparr> node = 7, range' = (5, 2) \<rparr>, backward = \<lparr> node = 8, range' = (0, 9) \<rparr> \<rparr> 3 4
     = Inr new_BidirectionalState"
  using empty_state_absorbing
    [of "\<lparr> node = 7, range' = (5, 2) \<rparr>" "\<lparr> cache_index = [], cached_records = [] \<rparr>" 3 4
        "\<lparr> forward = \<lparr> node = 7, range' = (5, 2) \<rparr>, backward = \<lparr> node = 8, range' = (0, 9) \<rparr> \<rparr>"]
  by (simp add: SearchState_empty_def BidirectionalState_empty_def Range_empty_def)

section \<open>The cache: rehashing and slots\<close>

text \<open>
  C6: \<open>rehash\<close> doubles the capacity and leaves the record list as it is, and every
  slot of the new table is the sentinel or a slot of the old table, node and offset
  unchanged. It returns in the state in which \<open>findRecord\<close> calls it.
\<close>

theorem rehash_doubles_table_only:
  "case rehash h c of
     Inr c' \<Rightarrow> cacheCapacity c' = 2 * cacheCapacity c \<and>
               cached_records c' = cached_records c \<and>
               set (cache_index c') \<subseteq> insert invalid_edge (set (cache_index c))
   | Inl e \<Rightarrow> \<not> rehash_pre c"
proof (cases "rehash h c")
  case (Inl e)
  then show ?thesis using rehash_ok[of c h] by auto
next
  case (Inr c')
  let ?c0 = "c\<lparr> cache_index := replicate (2 * cacheCapacity c) invalid_edge \<rparr>"
  have "set (cache_index ?c0) \<subseteq> insert invalid_edge (set (cache_index c))" by auto
  moreover have "rehash_loop h (cache_index c) 0 ?c0 = Inr c'" using Inr by (simp add: rehash_def)
  ultimately have "cached_records c' = cached_records ?c0 \<and> cacheCapacity c' = cacheCapacity ?c0 \<and>
      set (cache_index c') \<subseteq> insert invalid_edge (set (cache_index c))"
    using rehash_Inr[of h "cache_index c" 0 ?c0 c'] by blast
  then show ?thesis using Inr by (simp add: cacheCapacity_def)
qed

theorem rehash_doubles_table_only_witness:
  "rehash_pre \<lparr> cache_index = [(0, 0), (1, 1)], cached_records = [0, 1::node_type] \<rparr> \<and>
   (\<exists>c'. rehash wang_hash_64
            \<lparr> cache_index = [(0, 0), (1, 1)], cached_records = [0, 1::node_type] \<rparr> = Inr c' \<and>
         cacheCapacity c' = 4 \<and> cached_records c' = [0, 1] \<and>
         set (cache_index c') \<subseteq> {invalid_edge, (0, 0), (1, 1)})"
proof -
  let ?c = "\<lparr> cache_index = [(0, 0), (1, 1)], cached_records = [0, 1::node_type] \<rparr>"
  have cap: "cacheCapacity ?c = 2" and sz: "cacheSize ?c = 2"
    by (simp_all add: cacheCapacity_def cacheSize_def)
  have "offsets_distinct (cache_index ?c) (cacheSize ?c)"
    by (auto simp: offsets_distinct_def less_Suc_eq sz)
  then have "table_ok ?c"
    by (simp add: table_ok_def slots_valid_def sz)
  then have pre: "rehash_pre ?c"
    using pow2_2 by (simp add: rehash_pre_def cap sz)
  show ?thesis
  proof (cases "rehash wang_hash_64 ?c")
    case (Inl e)
    then show ?thesis using rehash_doubles_table_only[where h = wang_hash_64 and c = ?c] pre by simp
  next
    case (Inr c')
    then show ?thesis using rehash_doubles_table_only[where h = wang_hash_64 and c = ?c] pre
      by (simp add: cap)
  qed
qed

section \<open>Dictionary: removal\<close>

lemma in_zip_upt: "(k, i) \<in> set (zip ks [0..<length ks]) \<longleftrightarrow> i < length ks \<and> ks ! i = k"
  by (auto simp: set_zip)

lemma new_Dictionary_ok: "distinct ks \<Longrightarrow> Dictionary_ok (new_Dictionary ks)"
  by (simp add: Dictionary_ok_def new_Dictionary_def)

lemma find_present:
  assumes ok: "Dictionary_ok d" and i: "i < Dictionary_size d"
  shows "Dictionary_find d (Dictionary_at d i) = i"
proof -
  let ?k = "keys d ! i"
  have mem: "(k, j) \<in> set (lookup d) \<longleftrightarrow> j < length (keys d) \<and> keys d ! j = k" for k j
    using ok by (simp add: Dictionary_ok_def in_zip_upt)
  have "(?k, i) \<in> set (lookup d)" using i by (simp add: mem Dictionary_size_def)
  then obtain j where j: "map_of (lookup d) ?k = Some j" using weak_map_of_SomeI by fastforce
  then have "(?k, j) \<in> set (lookup d)" by (rule map_of_SomeD)
  then have "j < length (keys d)" "keys d ! j = ?k" by (simp_all add: mem)
  then have "j = i"
    using ok i by (simp add: Dictionary_ok_def Dictionary_size_def nth_eq_iff_index_eq)
  then show ?thesis using j by (simp add: Dictionary_find_def Dictionary_at_def)
qed

lemma find_absent:
  assumes ok: "Dictionary_ok d" and "key \<notin> set (keys d)"
  shows "Dictionary_find d key = Dictionary_size d"
proof (cases "map_of (lookup d) key")
  case None
  then show ?thesis by (simp add: Dictionary_find_def)
next
  case (Some j)
  then have "(key, j) \<in> set (lookup d)" by (rule map_of_SomeD)
  then have "key \<in> set (keys d)" using ok by (auto simp: Dictionary_ok_def in_zip_upt)
  then show ?thesis using assms(2) by simp
qed

lemma removed_nth:
  assumes "offset < length ks"
  shows "j < offset \<Longrightarrow> (take offset ks @ drop (Suc offset) ks) ! j = ks ! j"
    and "offset \<le> j \<Longrightarrow> Suc j < length ks \<Longrightarrow>
         (take offset ks @ drop (Suc offset) ks) ! j = ks ! Suc j"
  using assms by (simp_all add: nth_append min_def)

lemma removed_distinct:
  assumes "distinct ks"
  shows "distinct (take offset ks @ drop (Suc offset) ks)"
proof -
  have "distinct (take offset ks @ drop offset ks)" using assms by simp
  then have "set (take offset ks) \<inter> set (drop offset ks) = {}" by (simp only: distinct_append)
  moreover have "set (drop (Suc offset) ks) \<subseteq> set (drop offset ks)"
    by (rule set_drop_subset_set_drop) simp
  ultimately have "set (take offset ks) \<inter> set (drop (Suc offset) ks) = {}" by blast
  then show ?thesis using assms by simp
qed

lemma removed_absent:
  assumes "distinct ks" "offset < length ks"
  shows "ks ! offset \<notin> set (take offset ks @ drop (Suc offset) ks)"
proof -
  have "ks = take offset ks @ ks ! offset # drop (Suc offset) ks"
    using assms(2) by (rule id_take_nth_drop)
  then have "distinct (take offset ks @ ks ! offset # drop (Suc offset) ks)"
    using assms(1) by simp
  then show ?thesis by auto
qed

lemma remove_ok:
  assumes ok: "Dictionary_ok d" and off: "offset < Dictionary_size d"
  shows "Dictionary_ok (Dictionary_remove d offset)"
proof -
  let ?ks = "keys d" and ?f = "\<lambda>(k, i). (k, if offset < i then i - 1 else i)"
  let ?ks' = "take offset ?ks @ drop (Suc offset) ?ks"
  let ?l' = "map ?f (filter (\<lambda>(k, i). i \<noteq> offset) (lookup d))"
  have len: "offset < length ?ks" using off by (simp add: Dictionary_size_def)
  have len': "length ?ks' = length ?ks - 1" using len by simp
  have mem: "(k, j) \<in> set (lookup d) \<longleftrightarrow> j < length ?ks \<and> ?ks ! j = k" for k j
    using ok by (simp add: Dictionary_ok_def in_zip_upt)
  have "(k, j) \<in> set ?l' \<longleftrightarrow> j < length ?ks' \<and> ?ks' ! j = k" for k j
  proof
    assume "(k, j) \<in> set ?l'"
    then obtain i where i: "(k, i) \<in> set (lookup d)" "i \<noteq> offset"
      "j = (if offset < i then i - 1 else i)" by auto
    then have ik: "i < length ?ks" "?ks ! i = k" by (simp_all add: mem)
    show "j < length ?ks' \<and> ?ks' ! j = k"
    proof (cases "offset < i")
      case True
      then have "j = i - 1" "offset \<le> j" "Suc j = i" using i(3) by simp_all
      then show ?thesis using removed_nth(2)[OF len, of j] ik len' by simp
    next
      case False
      then have "j = i" "j < offset" using i(2,3) by simp_all
      then show ?thesis using removed_nth(1)[OF len, of j] ik len len' by simp
    qed
  next
    assume a: "j < length ?ks' \<and> ?ks' ! j = k"
    show "(k, j) \<in> set ?l'"
    proof (cases "j < offset")
      case True
      then have "(k, j) \<in> set (lookup d)" "j \<noteq> offset"
        using a removed_nth(1)[OF len, of j] len by (simp_all add: mem)
      then have "(k, j) \<in> set (filter (\<lambda>(k, i). i \<noteq> offset) (lookup d))" by simp
      then have "?f (k, j) \<in> ?f ` set (filter (\<lambda>(k, i). i \<noteq> offset) (lookup d))"
        by (rule imageI)
      then have "?f (k, j) \<in> set ?l'" by (simp only: set_map)
      then show ?thesis using True by simp
    next
      case False
      have sj: "Suc j < length ?ks" using a len len' by linarith
      have "?ks ! Suc j = k" using a removed_nth(2)[OF len, of j] False sj by simp
      then have "(k, Suc j) \<in> set (lookup d)" "Suc j \<noteq> offset"
        using sj False by (simp_all add: mem)
      then have "(k, Suc j) \<in> set (filter (\<lambda>(k, i). i \<noteq> offset) (lookup d))" by simp
      then have "?f (k, Suc j) \<in> ?f ` set (filter (\<lambda>(k, i). i \<noteq> offset) (lookup d))"
        by (rule imageI)
      then have "?f (k, Suc j) \<in> set ?l'" by (simp only: set_map)
      then show ?thesis using False by simp
    qed
  qed
  then have "set ?l' = set (zip ?ks' [0..<length ?ks'])"
    by (auto simp only: in_zip_upt)
  moreover have "distinct ?ks'" using ok by (simp only: Dictionary_ok_def removed_distinct)
  ultimately show ?thesis using off by (simp add: Dictionary_ok_def Dictionary_remove_def)
qed

text \<open>
  C7: for a dictionary and an offset \<open>i\<close> below its size, \<open>remove(i)\<close> makes the
  size one less, deletes the key that was at \<open>i\<close> (\<open>find\<close> on it returns the new
  size), leaves every key below \<open>i\<close> at its offset and moves every key above \<open>i\<close>
  down by one, and \<open>find\<close> on every surviving key returns its new offset. The
  dictionary stays well formed.
\<close>

theorem remove_shifts_keys:
  assumes ok: "Dictionary_ok d" and i: "i < Dictionary_size d"
  shows "Dictionary_size (Dictionary_remove d i) = Dictionary_size d - 1 \<and>
         Dictionary_at d i \<notin> set (keys (Dictionary_remove d i)) \<and>
         Dictionary_find (Dictionary_remove d i) (Dictionary_at d i)
           = Dictionary_size (Dictionary_remove d i) \<and>
         (\<forall>j<i. Dictionary_at (Dictionary_remove d i) j = Dictionary_at d j \<and>
                 Dictionary_find (Dictionary_remove d i) (Dictionary_at d j) = j) \<and>
         (\<forall>j. i < j \<and> j < Dictionary_size d \<longrightarrow>
                 Dictionary_at (Dictionary_remove d i) (j - 1) = Dictionary_at d j \<and>
                 Dictionary_find (Dictionary_remove d i) (Dictionary_at d j) = j - 1) \<and>
         Dictionary_ok (Dictionary_remove d i)"
proof -
  let ?d' = "Dictionary_remove d i" and ?ks = "keys d"
  have len: "i < length ?ks" using i by (simp add: Dictionary_size_def)
  have ks': "keys ?d' = take i ?ks @ drop (Suc i) ?ks"
    using i by (simp add: Dictionary_remove_def)
  have ok': "Dictionary_ok ?d'" using ok i by (rule remove_ok)
  have size': "Dictionary_size ?d' = Dictionary_size d - 1"
    using len by (simp add: Dictionary_size_def ks')
  have gone: "Dictionary_at d i \<notin> set (keys ?d')"
    using ok len removed_absent[of ?ks i] by (simp add: Dictionary_ok_def Dictionary_at_def ks')
  have lower: "Dictionary_at ?d' j = Dictionary_at d j \<and> Dictionary_find ?d' (Dictionary_at d j) = j"
    if "j < i" for j
  proof -
    have at: "Dictionary_at ?d' j = Dictionary_at d j"
      using removed_nth(1)[OF len that] by (simp add: Dictionary_at_def ks')
    have "j < Dictionary_size ?d'" using that i size' by simp
    then have "Dictionary_find ?d' (Dictionary_at ?d' j) = j" using ok' by (rule find_present[rotated])
    then show ?thesis using at by simp
  qed
  have upper: "Dictionary_at ?d' (j - 1) = Dictionary_at d j \<and>
               Dictionary_find ?d' (Dictionary_at d j) = j - 1"
    if "i < j \<and> j < Dictionary_size d" for j
  proof -
    have j: "i \<le> j - 1" "Suc (j - 1) < length ?ks" "Suc (j - 1) = j"
      using that unfolding Dictionary_size_def by linarith+
    have at: "Dictionary_at ?d' (j - 1) = Dictionary_at d j"
      using removed_nth(2)[OF len j(1) j(2)] j(3) by (simp add: Dictionary_at_def ks')
    have "j - 1 < Dictionary_size ?d'" using that size' by linarith
    then have "Dictionary_find ?d' (Dictionary_at ?d' (j - 1)) = j - 1"
      using ok' by (rule find_present[rotated])
    then show ?thesis using at by simp
  qed
  show ?thesis
    using size' gone find_absent[OF ok' gone] lower upper ok' by blast
qed

theorem remove_shifts_keys_witness:
  "Dictionary_ok (new_Dictionary [''first'', ''second'', ''third'', ''fourth'', ''fifth'']) \<and>
   (2::nat) < Dictionary_size (new_Dictionary [''first'', ''second'', ''third'', ''fourth'', ''fifth'']) \<and>
   keys (Dictionary_remove (new_Dictionary [''first'', ''second'', ''third'', ''fourth'', ''fifth'']) 2)
     = [''first'', ''second'', ''fourth'', ''fifth''] \<and>
   Dictionary_size (Dictionary_remove
     (new_Dictionary [''first'', ''second'', ''third'', ''fourth'', ''fifth'']) 2) = 4 \<and>
   Dictionary_find (Dictionary_remove
     (new_Dictionary [''first'', ''second'', ''third'', ''fourth'', ''fifth'']) 2) ''third'' = 4 \<and>
   Dictionary_find (Dictionary_remove
     (new_Dictionary [''first'', ''second'', ''third'', ''fourth'', ''fifth'']) 2) ''fourth'' = 2"
proof -
  let ?d = "new_Dictionary [''first'', ''second'', ''third'', ''fourth'', ''fifth'']"
  have ok: "Dictionary_ok ?d" by (rule new_Dictionary_ok) simp
  have sz: "Dictionary_size ?d = 5" by (simp add: Dictionary_size_def new_Dictionary_def)
  have i: "2 < Dictionary_size ?d" by (simp add: sz)
  have at: "Dictionary_at ?d 2 = ''third''" "Dictionary_at ?d 3 = ''fourth''"
    by (simp_all add: Dictionary_at_def new_Dictionary_def)
  have ks: "keys (Dictionary_remove ?d 2) = [''first'', ''second'', ''fourth'', ''fifth'']"
    by (simp add: Dictionary_remove_def Dictionary_size_def new_Dictionary_def)
  note r = remove_shifts_keys[OF ok i]
  have "Dictionary_size (Dictionary_remove ?d 2) = 4" using r by (simp add: sz)
  moreover have "Dictionary_find (Dictionary_remove ?d 2) ''third'' = 4"
    using r by (simp add: sz at)
  moreover have "Dictionary_find (Dictionary_remove ?d 2) ''fourth'' = 2"
  proof -
    have "2 < (3::nat) \<and> 3 < Dictionary_size ?d" by (simp add: sz)
    then have "Dictionary_find (Dictionary_remove ?d 2) (Dictionary_at ?d 3) = 3 - 1"
      using r by blast
    then show ?thesis by (simp add: at)
  qed
  ultimately show ?thesis using ok i ks by simp
qed

section \<open>Iterator: predecessor of a large query\<close>

lemma strict_sorted_last:
  assumes "xs \<noteq> []" "sorted_wrt (<) xs"
  shows "\<forall>y \<in> set (butlast xs). y < last xs"
proof -
  have "sorted_wrt (<) (butlast xs @ [last xs])" using assms by simp
  then show ?thesis by (simp only: sorted_wrt_append) simp
qed

lemma predecessor_at_or_after_last:
  assumes ne: "ones v \<noteq> []" and ok: "sd_vector_ok v" and x: "last (ones v) \<le> x"
  shows "SDIterator_predecessor v x =
           \<lparr> vector = v, pos = last (ones v), rank = length (ones v) - 1 \<rparr>"
proof -
  let ?xs = "ones v"
  have sorted: "sorted_wrt (<) ?xs" using ok by (simp add: sd_vector_ok_def)
  have below: "\<forall>y \<in> set (butlast ?xs). y < last ?xs" using ne sorted by (rule strict_sorted_last)
  have split: "?xs = butlast ?xs @ [last ?xs]" using ne by simp
  have all_le: "\<forall>y \<in> set ?xs. y \<le> last ?xs"
  proof
    fix y assume "y \<in> set ?xs"
    then have "y \<in> set (butlast ?xs) \<or> y = last ?xs" by (subst (asm) split) auto
    then show "y \<le> last ?xs" using below by auto
  qed
  then have f: "filter (\<lambda>p. p \<le> x) ?xs = ?xs" using x by (auto simp: filter_id_conv)
  have mx: "Max (set ?xs) = last ?xs"
    using all_le ne by (intro Max_eqI) simp_all
  have "filter (\<lambda>q. q < last ?xs) (butlast ?xs @ [last ?xs]) = butlast ?xs"
    using below by (simp add: filter_id_conv)
  then have "length (filter (\<lambda>q. q < last ?xs) ?xs) = length ?xs - 1"
    using split by (metis length_butlast)
  then show ?thesis using ne by (simp add: SDIterator_predecessor_def f mx Let_def)
qed

text \<open>
  C8: on a vector with at least one set bit, a predecessor query for a value at or
  above the last set bit, and so for the universe size itself, stands at the last set
  bit: it is not in the end state, its rank is the number of set bits less one, and it
  dereferences to the position of that bit.
\<close>

theorem predecessor_of_large_query:
  assumes "ones v \<noteq> []" and "sd_vector_ok v"
  shows "(last (ones v) \<le> x \<longrightarrow>
            \<not> SDIterator_end (SDIterator_predecessor v x) \<and>
            rank (SDIterator_predecessor v x) = SDIterator_size (SDIterator_predecessor v x) - 1 \<and>
            SDIterator_deref (SDIterator_predecessor v x) = last (ones v)) \<and>
         \<not> SDIterator_end (SDIterator_predecessor v (universe v)) \<and>
         rank (SDIterator_predecessor v (universe v))
           = SDIterator_size (SDIterator_predecessor v (universe v)) - 1 \<and>
         SDIterator_deref (SDIterator_predecessor v (universe v)) = last (ones v)"
proof -
  have lt: "last (ones v) < universe v"
    using assms by (simp add: sd_vector_ok_def)
  have "\<not> SDIterator_end (SDIterator_predecessor v y) \<and>
        rank (SDIterator_predecessor v y) = SDIterator_size (SDIterator_predecessor v y) - 1 \<and>
        SDIterator_deref (SDIterator_predecessor v y) = last (ones v)"
    if "last (ones v) \<le> y" for y
    using predecessor_at_or_after_last[OF assms that] lt
    by (simp add: SDIterator_end_def SDIterator_size_def SDIterator_deref_def)
  then show ?thesis using lt by (simp add: less_imp_le)
qed

theorem predecessor_of_large_query_witness:
  "ones \<lparr> ones = [0, 3], universe = 4 \<rparr> \<noteq> [] \<and>
   sd_vector_ok \<lparr> ones = [0, 3], universe = 4 \<rparr> \<and>
   \<not> SDIterator_end (SDIterator_predecessor \<lparr> ones = [0, 3], universe = 4 \<rparr> 4) \<and>
   rank (SDIterator_predecessor \<lparr> ones = [0, 3], universe = 4 \<rparr> 4) = 1 \<and>
   SDIterator_deref (SDIterator_predecessor \<lparr> ones = [0, 3], universe = 4 \<rparr> 4) = 3"
proof -
  let ?v = "\<lparr> ones = [0, 3], universe = 4 \<rparr>"
  have ne: "ones ?v \<noteq> []" by simp
  have ok: "sd_vector_ok ?v" by (simp add: sd_vector_ok_def)
  have sz: "SDIterator_size (SDIterator_predecessor ?v 4) = 2"
    by (simp add: SDIterator_size_def SDIterator_predecessor_def)
  show ?thesis
    using predecessor_of_large_query[OF ne ok, of 4] ne ok by (simp add: sz)
qed

section \<open>Dictionary: removal out of range\<close>

text \<open>
  C9: \<open>remove(i)\<close> with \<open>i\<close> at or above the size leaves the dictionary as it
  was, keys and lookup structure alike; there is no error value to return.
\<close>

theorem remove_out_of_range:
  "Dictionary_size d \<le> i \<Longrightarrow> Dictionary_remove d i = d"
  by (simp add: Dictionary_remove_def)

theorem remove_out_of_range_witness:
  "Dictionary_size (new_Dictionary [''first'', ''second'', ''third'', ''fourth'', ''fifth'']) \<le> 5 \<and>
   Dictionary_remove (new_Dictionary [''first'', ''second'', ''third'', ''fourth'', ''fifth'']) 5
     = new_Dictionary [''first'', ''second'', ''third'', ''fourth'', ''fifth'']"
proof -
  have le: "Dictionary_size (new_Dictionary [''first'', ''second'', ''third'', ''fourth'', ''fifth''])
      \<le> 5"
    by (simp add: Dictionary_size_def new_Dictionary_def)
  show ?thesis using remove_out_of_range[OF le] le by simp
qed

section \<open>The cache: slots index the record list\<close>

text \<open>
  The claim C10 says that a handle returned by \<open>findRecord\<close> always indexes the
  record list. It does not for the node \<open>invalid_node()\<close>: the sentinel slot holds
  that node, so on a new cache the lookup is a hit and returns the sentinel's offset,
  \<open>invalid_offset()\<close>, while the record list is empty.
\<close>

theorem findRecord_invalid_node:
  "findRecord wang_hash_64 (\<lambda>n. n) (new_CachedGBWT 2 256 True) invalid_node
     = Inr (2 ^ 64 - 1, new_CachedGBWT 2 256 True) \<and>
   cacheSize (new_CachedGBWT 2 256 True :: node_type CachedGBWT) = 0"
proof -
  let ?c0 = "new_CachedGBWT 2 256 True :: node_type CachedGBWT"
  define base where "base = unat (wang_hash_64 invalid_node) AND (cacheCapacity ?c0 - 1)"
  have lt: "base < 2" unfolding base_def using base_lt[of "cacheCapacity ?c0"]
    by (simp add: new_CachedGBWT_def cacheCapacity_def)
  then have e: "cache_index ?c0 ! base = invalid_edge" by (simp add: new_CachedGBWT_def)
  then have "indexOffset wang_hash_64 ?c0 invalid_node = Inr base"
    using indexOffset_first_free[of ?c0 base wang_hash_64 invalid_node] base_def
    by (simp add: slot_free_def cacheCapacity_def new_CachedGBWT_def)
  then show ?thesis using e by (simp add: findRecord_def cacheSize_def new_CachedGBWT_def)
qed

text \<open>
  C10, amended: in every cache reached from the constructor by \<open>findRecord\<close> and
  \<open>clearCache\<close>, every slot is the sentinel or stores an offset below the size of
  the record list, and \<open>findRecord\<close> of a node other than \<open>invalid_node()\<close>
  returns an offset below the size of the record list it leaves. The initial
  capacities are powers of two, and the run is shorter than \<open>2^64 - 1\<close> calls.
\<close>

theorem slots_index_records:
  assumes "is_power_of_two SINGLE_CAPACITY" "is_power_of_two INITIAL_CAPACITY"
    and "length rs + 1 < 2 ^ 64"
  shows "\<exists>c. run h index_record (new_CachedGBWT SINGLE_CAPACITY INITIAL_CAPACITY single_record) rs
              = Inr c \<and>
           (\<forall>e \<in> set (cache_index c). e = invalid_edge \<or> unat (snd e) < cacheSize c) \<and>
           (n \<noteq> invalid_node \<longrightarrow>
              (\<exists>r c'. findRecord h index_record c n = Inr (r, c') \<and> r < cacheSize c'))"
proof -
  have "length rs < 2 ^ 64" using assms(3) by simp
  then obtain c where c:
    "run h index_record (new_CachedGBWT SINGLE_CAPACITY INITIAL_CAPACITY single_record) rs = Inr c"
    "cache_inv c" "cacheSize c \<le> length rs"
    using run_reaches_inv[OF assms(1,2)] by blast
  have "cacheSize c + 1 < 2 ^ 64" using c(3) assms(3) by simp
  then have "\<exists>r c'. findRecord h index_record c n = Inr (r, c') \<and>
      (n \<noteq> invalid_node \<longrightarrow> r < cacheSize c')"
    using findRecord_ok[OF c(2), of h index_record n] by blast
  then show ?thesis using c by (auto simp: cache_inv_def table_ok_def slots_valid_def)
qed

theorem slots_index_records_witness:
  "is_power_of_two 2 \<and> is_power_of_two 256 \<and>
   length [FindRecord 1000, FindRecord 1001, ClearCache, FindRecord 5] + 1 < (2::nat) ^ 64 \<and>
   (1000::node_type) \<noteq> invalid_node \<and>
   (\<exists>c. run wang_hash_64 (\<lambda>n. n) (new_CachedGBWT 2 256 True)
           [FindRecord 1000, FindRecord 1001, ClearCache, FindRecord 5] = Inr c \<and>
        (\<exists>r c'. findRecord wang_hash_64 (\<lambda>n. n) c 1000 = Inr (r, c') \<and> r < cacheSize c'))"
proof -
  have len: "length [FindRecord 1000, FindRecord 1001, ClearCache, FindRecord 5] + 1 < (2::nat) ^ 64"
    by simp
  have ne: "(1000::node_type) \<noteq> invalid_node" by (simp add: invalid_node_def)
  show ?thesis
    using slots_index_records[OF pow2_2 pow2_256 len,
        where h = wang_hash_64 and index_record = "\<lambda>n. n" and single_record = True
          and n = 1000]
      pow2_2 pow2_256 len ne
    by blast
qed

end
